theory Spec2Isabelle
  imports Main "HOL-Library.AList"
begin

section \<open>The all-link database of a device (insteon\_mqtt/db/Device.py)\<close>

text \<open>
  The class \<open>Device\<close> mirrors the link table of a remote Insteon device. Python objects
  are modelled as values: the class states that nobody keeps a handle to an entry
  outside of it, so an entry stored in a dictionary is the value it had when stored.
  A Python \<open>dict\<close> is an association list with distinct keys in insertion order
  (\<open>AList.update\<close> overwrites in place or appends, \<open>AList.delete\<close> removes,
  \<open>map_of\<close> reads), so that \<open>values()\<close> is in the order Python iterates in.
  Names with a leading underscore lose it (\<open>_mem_locs\<close> is \<open>mem_locs\<close>,
  \<open>_pending\<close> is \<open>pending\<close>) or take the prefix \<open>priv\<close>
  (\<open>_add_on_device\<close> is \<open>priv_add_on_device\<close>).
\<close>

subsection \<open>Link entries\<close>

type_synonym Address = int

record DbFlags =
  in_use :: bool
  is_controller :: bool
  is_last_rec :: bool

record DeviceEntry =
  addr :: Address
  group :: int
  mem_loc :: int
  db_flags :: DbFlags
  data :: "nat list"

text \<open>The constructors \<open>Msg.DbFlags(...)\<close> and \<open>DeviceEntry(...)\<close>.\<close>

definition mk_flags :: "bool \<Rightarrow> bool \<Rightarrow> bool \<Rightarrow> DbFlags" where
  "mk_flags u c l = \<lparr>in_use = u, is_controller = c, is_last_rec = l\<rparr>"

definition mk_entry :: "Address \<Rightarrow> int \<Rightarrow> int \<Rightarrow> DbFlags \<Rightarrow> nat list \<Rightarrow> DeviceEntry" where
  "mk_entry a g m f d = \<lparr>addr = a, group = g, mem_loc = m, db_flags = f, data = d\<rparr>"

text \<open>
  Modelled from the spec: the class \<open>DeviceEntry\<close> is not part of the sources. The
  spec gives the equality used by \<open>entry not in responders\<close> as equality on peer and
  slot address.
\<close>

definition entry_eq :: "DeviceEntry \<Rightarrow> DeviceEntry \<Rightarrow> bool" where
  "entry_eq a b = (addr a = addr b \<and> mem_loc a = mem_loc b)"

text \<open>
  Modelled from the spec: \<open>DeviceEntry.update_from\<close> overwrites peer, group, role and
  payload and sets the in-use flag; the slot address and the last-record flag stay.
\<close>

definition update_from ::
  "DeviceEntry \<Rightarrow> Address \<Rightarrow> int \<Rightarrow> bool \<Rightarrow> nat list \<Rightarrow> DeviceEntry" where
  "update_from e a g ctl d =
     e\<lparr>addr := a, group := g,
       db_flags := (db_flags e)\<lparr>in_use := True, is_controller := ctl\<rparr>,
       data := d\<rparr>"

text \<open>
  Modelled from the spec: \<open>DeviceEntry.copy\<close> returns an independent entry with the
  same fields; on values that is the entry itself.
\<close>

definition copy :: "DeviceEntry \<Rightarrow> DeviceEntry" where
  "copy e = e"

subsection \<open>The database object\<close>

text \<open>The levels of the log that are recorded; \<open>LOG.debug\<close> calls are left out.\<close>

datatype level = INFO | WARNING | ERROR

datatype error = AssertionError | ValueError | IndexError | TypeError | KeyError

text \<open>A caller's \<open>on_done\<close> callback is a name; \<open>None\<close> is the default argument.\<close>

type_synonym callback = nat

record add_args =
  a_addr :: Address
  a_group :: int
  a_is_controller :: bool
  a_data :: "nat list"
  a_on_done :: "callback option"

record del_args =
  d_entry :: DeviceEntry
  d_on_done :: "callback option"

text \<open>
  An element of \<open>_pending\<close>: the dummy \<open>True\<close> pushed by the first call, or a
  \<open>functools.partial\<close> of \<open>_add_on_device\<close> or \<open>_delete_on_device\<close>.
\<close>

datatype pending_call = Marker | AddCall add_args | DelCall del_args

record Device =
  dev_addr :: Address
  save_path :: "string option"
  delta :: "int option"
  entries :: "(int \<times> DeviceEntry) list"
  unused :: "(int \<times> DeviceEntry) list"
  groups :: "(int \<times> DeviceEntry list) list"
  mem_locs :: "int set"
  pending :: "pending_call list"

definition init :: "Address \<Rightarrow> string option \<Rightarrow> Device" where
  "init a path =
     \<lparr>dev_addr = a, save_path = path, delta = None, entries = [], unused = [],
      groups = [], mem_locs = {}, pending = []\<rparr>"

definition is_current :: "Device \<Rightarrow> int option \<Rightarrow> bool" where
  "is_current db d = (d = delta db)"

text \<open>
  \<open>save\<close> writes \<open>to_json\<close> to the file at \<open>save_path\<close> and changes no attribute
  of the object, and \<open>clear\<close> removes that file; the file system is outside the
  modelled state, so \<open>set_delta\<close>, \<open>add_entry\<close> and \<open>clear\<close> are functions of the
  object alone.
\<close>

definition set_delta :: "Device \<Rightarrow> int option \<Rightarrow> Device" where
  "set_delta db d = db\<lparr>delta := d\<rparr>"

definition set_path :: "Device \<Rightarrow> string option \<Rightarrow> Device" where
  "set_path db path = db\<lparr>save_path := path\<rparr>"

definition clear :: "Device \<Rightarrow> Device" where
  "clear db = db\<lparr>delta := None, entries := [], unused := [], groups := [], mem_locs := {}\<rparr>"

definition find_group :: "Device \<Rightarrow> int \<Rightarrow> DeviceEntry list" where
  "find_group db g = (case map_of (groups db) g of None \<Rightarrow> [] | Some es \<Rightarrow> es)"

definition find :: "Device \<Rightarrow> Address \<Rightarrow> int \<Rightarrow> bool \<Rightarrow> DeviceEntry option" where
  "find db a g ctl =
     List.find (\<lambda>e. addr e = a \<and> group e = g \<and> is_controller (db_flags e) = ctl)
       (map snd (entries db))"

definition find_mem_loc :: "Device \<Rightarrow> int \<Rightarrow> DeviceEntry option" where
  "find_mem_loc db m = map_of (entries db) m"

definition find_all ::
  "Device \<Rightarrow> Address option \<Rightarrow> int option \<Rightarrow> bool option \<Rightarrow> DeviceEntry list" where
  "find_all db a g ctl =
     filter (\<lambda>e. \<not> (a \<noteq> None \<and> Some (addr e) \<noteq> a)
                \<and> \<not> (g \<noteq> None \<and> Some (group e) \<noteq> g)
                \<and> \<not> (ctl \<noteq> None \<and> Some (is_controller (db_flags e)) \<noteq> ctl))
       (map snd (entries db))"

subsection \<open>Local insertion\<close>

text \<open>
  The loop of the not-in-use branch: delete the first responder whose peer is the
  entry's peer, then stop.
\<close>

fun del_first_addr :: "Address \<Rightarrow> DeviceEntry list \<Rightarrow> DeviceEntry list" where
  "del_first_addr a [] = []"
| "del_first_addr a (r # rs) = (if addr r = a then rs else r # del_first_addr a rs)"

definition add_entry :: "Device \<Rightarrow> DeviceEntry \<Rightarrow> Device" where
  "add_entry db entry =
     (if in_use (db_flags entry) then
        (let db1 = db\<lparr>entries := AList.update (mem_loc entry) entry (entries db),
                      mem_locs := insert (mem_loc entry) (mem_locs db)\<rparr>
         in if is_controller (db_flags entry) then
              (let responders = find_group db1 (group entry)
               in if list_ex (entry_eq entry) responders
                  then db1\<lparr>groups := AList.update (group entry) responders (groups db1)\<rparr>
                  else db1\<lparr>groups :=
                         AList.update (group entry) (responders @ [entry]) (groups db1)\<rparr>)
            else db1)
      else
        (let db1 = db\<lparr>unused := AList.update (mem_loc entry) entry (unused db),
                      mem_locs := insert (mem_loc entry) (mem_locs db)\<rparr>
         in if is_controller (db_flags entry) \<and> map_of (groups db1) (group entry) \<noteq> None then
              db1\<lparr>groups :=
                    AList.update (group entry)
                      (del_first_addr (addr entry) (find_group db1 (group entry))) (groups db1)\<rparr>
            else db1))"

subsection \<open>The snapshot document\<close>

text \<open>
  Modelled from the spec: \<open>DeviceEntry.to_json\<close> and \<open>DeviceEntry.from_json\<close> are
  not part of the sources; the document holds each entry as it is, so that reading
  back what was written gives the entry again.
\<close>

record document =
  doc_address :: Address
  doc_delta :: "int option"
  doc_used :: "DeviceEntry list"
  doc_unused :: "DeviceEntry list"

definition to_json :: "Device \<Rightarrow> document" where
  "to_json db =
     \<lparr>doc_address = dev_addr db, doc_delta = delta db,
      doc_used = map snd (entries db), doc_unused = map snd (unused db)\<rparr>"

definition from_json :: "document \<Rightarrow> string option \<Rightarrow> Device" where
  "from_json doc path =
     (let obj = (init (doc_address doc) path)\<lparr>delta := doc_delta doc\<rparr>;
          obj1 = foldl add_entry obj (doc_used doc)
      in foldl add_entry obj1 (doc_unused doc))"

subsection \<open>The transport and the exchange handler\<close>

text \<open>
  \<open>Msg.OutExtended.direct(self.addr, 0x2f, 0x00, ext_data)\<close>: the bytes of an entry
  are modelled by the entry (the record encoding is not part of the sources).
\<close>

record OutExtended =
  w_dev :: Address
  w_cmd1 :: nat
  w_cmd2 :: nat
  w_entry :: DeviceEntry

definition direct :: "Address \<Rightarrow> nat \<Rightarrow> nat \<Rightarrow> DeviceEntry \<Rightarrow> OutExtended" where
  "direct a c1 c2 e = \<lparr>w_dev = a, w_cmd1 = c1, w_cmd2 = c2, w_entry = e\<rparr>"

text \<open>
  The closure \<open>done_cb\<close> of \<open>_add_on_device\<close> or of \<open>_delete_on_device\<close>, with
  the caller's \<open>on_done\<close> it captured.
\<close>

datatype continuation = AddDone "callback option" | DelDone "callback option"

text \<open>
  Modelled from the spec: the handler \<open>handler.DeviceDbModify(db, entry, on_done)\<close>
  is not part of the sources. It holds the entry of the write it waits for, the
  follow-up writes added by \<open>add_update\<close>, and the continuation.
\<close>

record exchange =
  h_entry :: DeviceEntry
  h_next :: "(OutExtended \<times> DeviceEntry) list"
  h_done :: continuation

definition DeviceDbModify :: "DeviceEntry \<Rightarrow> continuation \<Rightarrow> exchange" where
  "DeviceDbModify e k = \<lparr>h_entry = e, h_next = [], h_done = k\<rparr>"

definition add_update :: "exchange \<Rightarrow> OutExtended \<Rightarrow> DeviceEntry \<Rightarrow> exchange" where
  "add_update h m e = h\<lparr>h_next := h_next h @ [(m, e)]\<rparr>"

text \<open>
  The database together with what it acts on: the writes the transport has seen, in
  order; the handlers waiting for a reply; the calls made to callers' \<open>on_done\<close>;
  the log.
\<close>

record world =
  db :: Device
  sent :: "OutExtended list"
  active :: "exchange list"
  calls :: "(callback \<times> bool \<times> string \<times> DeviceEntry option) list"
  logs :: "(level \<times> string) list"

text \<open>A call returns, or raises with the state as it is at the raise.\<close>

datatype result = Ok world | Raise error world

fun state_of :: "result \<Rightarrow> world" where
  "state_of (Ok w) = w"
| "state_of (Raise e w) = w"

definition log :: "level \<Rightarrow> string \<Rightarrow> world \<Rightarrow> world" where
  "log l m w = w\<lparr>logs := logs w @ [(l, m)]\<rparr>"

text \<open>\<open>if on_done: on_done(success, msg, entry)\<close>\<close>

definition call_on_done ::
  "callback option \<Rightarrow> bool \<Rightarrow> string \<Rightarrow> DeviceEntry option \<Rightarrow> world \<Rightarrow> world" where
  "call_on_done cb ok m e w =
     (case cb of None \<Rightarrow> w | Some c \<Rightarrow> w\<lparr>calls := calls w @ [(c, ok, m, e)]\<rparr>)"

text \<open>
  Modelled from the spec: \<open>protocol.send(msg, msg_handler)\<close> hands the write to the
  transport and registers the handler for the reply.
\<close>

definition protocol_send :: "OutExtended \<Rightarrow> exchange \<Rightarrow> world \<Rightarrow> world" where
  "protocol_send m h w = w\<lparr>sent := sent w @ [m], active := active w @ [h]\<rparr>"

subsection \<open>Adding and deleting on the device\<close>

definition priv_add_using_unused ::
  "world \<Rightarrow> Address \<Rightarrow> int \<Rightarrow> bool \<Rightarrow> nat list \<Rightarrow> continuation \<Rightarrow> result" where
  "priv_add_using_unused w a g ctl d on_done =
     (if unused (db w) = [] then Raise ValueError w
      else
        (let k = Max (set (map fst (unused (db w))))
         in case map_of (unused (db w)) k of
              None \<Rightarrow> Raise KeyError w
            | Some e \<Rightarrow>
                (let w1 = w\<lparr>db := (db w)\<lparr>unused := AList.delete k (unused (db w))\<rparr>\<rparr>;
                     w2 = log INFO ''using unused entry'' w1;
                     entry = update_from e a g ctl d;
                     msg = direct (dev_addr (db w2)) 0x2f 0x00 entry;
                     msg_handler = DeviceDbModify entry on_done
                 in Ok (protocol_send msg msg_handler w2))))"

definition priv_add_using_new ::
  "world \<Rightarrow> Address \<Rightarrow> int \<Rightarrow> bool \<Rightarrow> nat list \<Rightarrow> continuation \<Rightarrow> result" where
  "priv_add_using_new w a g ctl d on_done =
     (if mem_locs (db w) = {} then Raise ValueError w
      else
        (case find_mem_loc (db w) (Min (mem_locs (db w))) of
           None \<Rightarrow> Ok (log ERROR ''MEM_LOCS error'' w)
         | Some last_entry \<Rightarrow>
             (let loc = mem_loc last_entry - 0x08;
                  w1 = log INFO ''appending new record'' w;
                  flags = mk_flags True ctl True;
                  entry = mk_entry a g loc flags d;
                  msg = direct (dev_addr (db w1)) 0x2f 0x00 entry;
                  msg_handler = DeviceDbModify entry on_done;
                  new_last = (copy last_entry)
                               \<lparr>db_flags := (db_flags (copy last_entry))\<lparr>is_last_rec := False\<rparr>\<rparr>;
                  next_msg = direct (dev_addr (db w1)) 0x2f 0x00 new_last;
                  msg_handler1 = add_update msg_handler next_msg new_last
              in Ok (protocol_send msg msg_handler1 w1))))"

definition priv_add_on_device :: "world \<Rightarrow> add_args \<Rightarrow> result" where
  "priv_add_on_device w a =
     (let d = (if a_data a = [] then [0, 0, 0] else a_data a)
      in case find (db w) (a_addr a) (a_group a) (a_is_controller a) of
           Some entry \<Rightarrow>
             Ok (call_on_done (a_on_done a) True ''Entry already exists'' (Some entry)
                   (log WARNING ''add db already exists'' w))
         | None \<Rightarrow>
             (let w1 = log INFO ''adding db'' w
              in if length (entries (db w1)) = 0 then Raise AssertionError w1
                 else
                   (case (if unused (db w1) \<noteq> []
                          then priv_add_using_unused w1 (a_addr a) (a_group a)
                                 (a_is_controller a) d (AddDone (a_on_done a))
                          else priv_add_using_new w1 (a_addr a) (a_group a)
                                 (a_is_controller a) d (AddDone (a_on_done a))) of
                      Raise e w2 \<Rightarrow> Raise e w2
                    | Ok w2 \<Rightarrow>
                        Ok (if pending (db w2) = []
                            then w2\<lparr>db := (db w2)\<lparr>pending := pending (db w2) @ [Marker]\<rparr>\<rparr>
                            else w2))))"

definition priv_delete_on_device :: "world \<Rightarrow> del_args \<Rightarrow> result" where
  "priv_delete_on_device w a =
     (let new_entry = (copy (d_entry a))
                        \<lparr>db_flags := (db_flags (copy (d_entry a)))\<lparr>in_use := False\<rparr>\<rparr>;
          msg = direct (dev_addr (db w)) 0x2f 0x00 new_entry;
          msg_handler = DeviceDbModify new_entry (DelDone (d_on_done a));
          w1 = protocol_send msg msg_handler w
      in Ok (if pending (db w1) = []
             then w1\<lparr>db := (db w1)\<lparr>pending := pending (db w1) @ [Marker]\<rparr>\<rparr>
             else w1))"

definition add_on_device :: "world \<Rightarrow> add_args \<Rightarrow> result" where
  "add_on_device w a =
     (if pending (db w) = [] then priv_add_on_device w a
      else Ok ((log INFO ''busy - waiting to add to db'' w)
                 \<lparr>db := (db w)\<lparr>pending := pending (db w) @ [AddCall a]\<rparr>\<rparr>))"

definition delete_on_device :: "world \<Rightarrow> del_args \<Rightarrow> result" where
  "delete_on_device w a =
     (if pending (db w) = [] then priv_delete_on_device w a
      else Ok ((log INFO ''busy - waiting to delete to db'' w)
                 \<lparr>db := (db w)\<lparr>pending := pending (db w) @ [DelCall a]\<rparr>\<rparr>))"

text \<open>\<open>self._pending[0]()\<close>: the dummy \<open>True\<close> is not callable.\<close>

fun run_pending :: "world \<Rightarrow> pending_call \<Rightarrow> result" where
  "run_pending w Marker = Raise TypeError w"
| "run_pending w (AddCall a) = priv_add_on_device w a"
| "run_pending w (DelCall a) = priv_delete_on_device w a"

fun cont_on_done :: "continuation \<Rightarrow> callback option" where
  "cont_on_done (AddDone cb) = cb"
| "cont_on_done (DelDone cb) = cb"

definition done_cb ::
  "continuation \<Rightarrow> world \<Rightarrow> bool \<Rightarrow> string \<Rightarrow> DeviceEntry option \<Rightarrow> result" where
  "done_cb k w ok m e =
     (case pending (db w) of
        [] \<Rightarrow> Raise IndexError w
      | p # rest \<Rightarrow>
          (let w1 = w\<lparr>db := (db w)\<lparr>pending := rest\<rparr>\<rparr>
           in case rest of
                nxt # later \<Rightarrow> run_pending w1 nxt
              | [] \<Rightarrow> Ok (call_on_done (cont_on_done k) ok m e w1)))"

text \<open>
  Modelled from the spec: the replies of the device, as the handler treats them. On
  an acknowledgment the entry of the acknowledged write is inserted locally
  (\<open>add_entry\<close>); a follow-up write, if there is one, is sent then, and the
  continuation runs after the last one. A failure runs the continuation with
  \<open>success = False\<close> and leaves the record store alone.
\<close>

definition on_ack :: "world \<Rightarrow> result" where
  "on_ack w =
     (case active w of
        [] \<Rightarrow> Ok w
      | h # hs \<Rightarrow>
          (let w1 = w\<lparr>db := add_entry (db w) (h_entry h)\<rparr>
           in case h_next h of
                (m, e) # later \<Rightarrow>
                  Ok (w1\<lparr>sent := sent w1 @ [m],
                          active := h\<lparr>h_entry := e, h_next := later\<rparr> # hs\<rparr>)
              | [] \<Rightarrow>
                  done_cb (h_done h) (w1\<lparr>active := hs\<rparr>) True ''Database update complete''
                    (Some (h_entry h))))"

definition on_nak :: "world \<Rightarrow> result" where
  "on_nak w =
     (case active w of
        [] \<Rightarrow> Ok w
      | h # hs \<Rightarrow>
          done_cb (h_done h) (w\<lparr>active := hs\<rparr>) False ''Database command NAK''
            (Some (h_entry h)))"

definition start :: "Device \<Rightarrow> world" where
  "start d = \<lparr>db = d, sent = [], active = [], calls = [], logs = []\<rparr>"

subsection \<open>Reachable states\<close>

text \<open>
  The states of a database and its transport that the public operations and the
  replies of the device lead to, from a fresh or a rehydrated database.
\<close>

inductive reachable :: "world \<Rightarrow> bool" where
  r_init: "reachable (start (init a path))"
| r_add_entry: "reachable w \<Longrightarrow> reachable (w\<lparr>db := add_entry (db w) e\<rparr>)"
| r_set_delta: "reachable w \<Longrightarrow> reachable (w\<lparr>db := set_delta (db w) d\<rparr>)"
| r_assign_delta: "reachable w \<Longrightarrow> reachable (w\<lparr>db := (db w)\<lparr>delta := d\<rparr>\<rparr>)"
| r_clear: "reachable w \<Longrightarrow> reachable (w\<lparr>db := clear (db w)\<rparr>)"
| r_set_path: "reachable w \<Longrightarrow> reachable (w\<lparr>db := set_path (db w) path\<rparr>)"
| r_add: "reachable w \<Longrightarrow> reachable (state_of (add_on_device w a))"
| r_delete: "reachable w \<Longrightarrow> reachable (state_of (delete_on_device w x))"
| r_ack: "reachable w \<Longrightarrow> reachable (state_of (on_ack w))"
| r_nak: "reachable w \<Longrightarrow> reachable (state_of (on_nak w))"

text \<open>Every value of the dictionary is stored under its own slot address.\<close>

definition keyed :: "(int \<times> DeviceEntry) list \<Rightarrow> bool" where
  "keyed al = list_all (\<lambda>(k, e). mem_loc e = k) al"

text \<open>Every value of \<open>entries\<close> is marked in use.\<close>

definition all_in_use :: "(int \<times> DeviceEntry) list \<Rightarrow> bool" where
  "all_in_use al = list_all (\<lambda>(k, e). in_use (db_flags e)) al"

definition store_ok :: "Device \<Rightarrow> bool" where
  "store_ok d = (keyed (entries d) \<and> all_in_use (entries d) \<and> keyed (unused d)
                 \<and> fst ` set (entries d) \<union> fst ` set (unused d) \<subseteq> mem_locs d
                 \<and> finite (mem_locs d))"

definition wf :: "world \<Rightarrow> bool" where
  "wf w = (store_ok (db w) \<and> length (active w) \<le> 1
           \<and> (active w \<noteq> [] \<longrightarrow> pending (db w) \<noteq> []))"

text \<open>Every member of a group list is a controller entry of that group.\<close>

definition group_members_ok :: "Device \<Rightarrow> bool" where
  "group_members_ok d =
     list_all (\<lambda>(g, rs). list_all (\<lambda>r. is_controller (db_flags r) \<and> group r = g) rs) (groups d)"

text \<open>What starting an operation does to the transport and the queue.\<close>

definition started :: "world \<Rightarrow> world \<Rightarrow> bool" where
  "started w w' = (store_ok (db w') \<and> pending (db w') = pending (db w)
                   \<and> (active w' = active w \<or> (\<exists>h. active w' = active w @ [h])))"

text \<open>The copy \<open>new_last\<close> that \<open>_add_using_new\<close> makes of the last entry.\<close>

definition not_last :: "DeviceEntry \<Rightarrow> DeviceEntry" where
  "not_last e = e\<lparr>db_flags := (db_flags e)\<lparr>is_last_rec := False\<rparr>\<rparr>"

text \<open>What starting a request leaves of the record store.\<close>

definition kept :: "Device \<Rightarrow> Device \<Rightarrow> bool" where
  "kept d d' = (entries d' = entries d \<and> mem_locs d' = mem_locs d \<and> groups d' = groups d
                \<and> delta d' = delta d
                \<and> (unused d' = unused d \<or> (\<exists>k. unused d' = AList.delete k (unused d))))"

text \<open>
  A state in which a request may start: the record store is consistent and no
  handler waits for a reply. Every reachable state with an empty queue is one, and
  so is the state in which \<open>done_cb\<close> runs the next queued request.
\<close>

definition ready :: "world \<Rightarrow> bool" where
  "ready w = (store_ok (db w) \<and> active w = [])"





subsection \<open>Example databases\<close>

text \<open>
  A device with the bootstrap last record at slot \<open>0x0FF8\<close> and one free slot at
  \<open>0x0FE0\<close>, and a request to add a responder link to peer 2 in group 2.
\<close>

definition bootstrap :: DeviceEntry where
  "bootstrap = mk_entry 1 1 0x0FF8 (mk_flags True True True) [1, 2, 3]"

definition spare :: DeviceEntry where
  "spare = mk_entry 0 0 0x0FE0 (mk_flags False False False) [0, 0, 0]"

definition db_spare :: Device where
  "db_spare = add_entry (add_entry (init 9 None) bootstrap) spare"

definition req2 :: add_args where
  "req2 = \<lparr>a_addr = 2, a_group = 2, a_is_controller = False, a_data = [0, 0, 0],
            a_on_done = Some 7\<rparr>"

text \<open>
  The bootstrap record alone; a table in which two records carry the last-record
  flag; the state after both writes of a growth are acknowledged.
\<close>

definition db_boot :: Device where
  "db_boot = add_entry (init 9 None) bootstrap"

definition second_last :: DeviceEntry where
  "second_last = mk_entry 3 3 0x0FF0 (mk_flags True False True) [0, 0, 0]"

definition db_two_last :: Device where
  "db_two_last = add_entry (add_entry (init 9 None) bootstrap) second_last"

definition committed :: "world \<Rightarrow> add_args \<Rightarrow> world" where
  "committed w a = state_of (on_ack (state_of (on_ack (state_of (add_on_device w a)))))"

text \<open>
  Requests for a link that the bootstrap record already is and for a controller link
  to peer 3 in group 3; a database whose only record is a free slot.
\<close>

definition req1 :: add_args where
  "req1 = \<lparr>a_addr = 1, a_group = 1, a_is_controller = True, a_data = [1, 2, 3],
            a_on_done = Some 5\<rparr>"

definition req3 :: add_args where
  "req3 = \<lparr>a_addr = 3, a_group = 3, a_is_controller = True, a_data = [],
            a_on_done = Some 8\<rparr>"

definition db_only_spare :: Device where
  "db_only_spare = add_entry (init 9 None) spare"

text \<open>
  The bootstrap record marked not in use; the same slot rewritten as a link of group
  2; a deleted link at \<open>0x0FF8\<close> and the same link made again at \<open>0x0FF0\<close>, in
  the order a download reads them; the state after a reuse whose write failed.
\<close>

definition freed :: DeviceEntry where
  "freed = mk_entry 1 1 0x0FF8 (mk_flags False True True) [1, 2, 3]"

definition regrouped :: DeviceEntry where
  "regrouped = mk_entry 1 2 0x0FF8 (mk_flags True True True) [1, 2, 3]"

definition old_link :: DeviceEntry where
  "old_link = mk_entry 1 1 0x0FF8 (mk_flags False True False) [1, 2, 3]"

definition new_link :: DeviceEntry where
  "new_link = mk_entry 1 1 0x0FF0 (mk_flags True True True) [1, 2, 3]"

definition db_relinked :: Device where
  "db_relinked = add_entry (add_entry (init 9 None) old_link) new_link"

definition after_failed_reuse :: world where
  "after_failed_reuse = state_of (on_nak (state_of (add_on_device (start db_spare) req2)))"

text \<open>
  The database with the bootstrap record while a first request is in flight, and the
  same after \<open>clear\<close>.
\<close>

definition busy_boot :: world where
  "busy_boot = state_of (add_on_device (start db_boot) req2)"

definition busy_cleared :: world where
  "busy_cleared = busy_boot\<lparr>db := clear (db busy_boot)\<rparr>"


section \<open>Invariants of the reachable states\<close>

lemma add_entry_pending [simp]: "pending (add_entry d e) = pending d"
  by (simp add: add_entry_def Let_def)

lemma add_entry_dev_addr [simp]: "dev_addr (add_entry d e) = dev_addr d"
  by (simp add: add_entry_def Let_def)

lemma add_entry_delta [simp]: "delta (add_entry d e) = delta d"
  by (simp add: add_entry_def Let_def)

lemma add_entry_mem_locs [simp]: "mem_locs (add_entry d e) = insert (mem_loc e) (mem_locs d)"
  by (simp add: add_entry_def Let_def)

lemma add_entry_entries:
  "entries (add_entry d e) =
     (if in_use (db_flags e) then AList.update (mem_loc e) e (entries d) else entries d)"
  by (simp add: add_entry_def Let_def)

lemma add_entry_unused:
  "unused (add_entry d e) =
     (if in_use (db_flags e) then unused d else AList.update (mem_loc e) e (unused d))"
  by (simp add: add_entry_def Let_def)

lemma keyed_update: "keyed al \<Longrightarrow> keyed (AList.update (mem_loc e) e al)"
  by (induction al) (auto simp: keyed_def)

lemma keyed_delete: "keyed al \<Longrightarrow> keyed (AList.delete k al)"
  by (induction al) (auto simp: keyed_def)

lemma keyed_map_of: "keyed al \<Longrightarrow> map_of al k = Some e \<Longrightarrow> mem_loc e = k"
  by (induction al) (auto simp: keyed_def split: if_splits)

lemma all_in_use_update:
  "all_in_use al \<Longrightarrow> in_use (db_flags e) \<Longrightarrow> all_in_use (AList.update k e al)"
  by (induction al) (auto simp: all_in_use_def)

lemma all_in_use_map_of: "all_in_use al \<Longrightarrow> map_of al k = Some e \<Longrightarrow> in_use (db_flags e)"
  by (induction al) (auto simp: all_in_use_def split: if_splits)

lemma store_ok_add_entry: "store_ok d \<Longrightarrow> store_ok (add_entry d e)"
  unfolding store_ok_def
  by (auto simp: add_entry_entries add_entry_unused keyed_update all_in_use_update
        AList.dom_update)

lemma store_ok_pop: "store_ok d \<Longrightarrow> store_ok (d\<lparr>unused := AList.delete k (unused d)\<rparr>)"
proof -
  have "fst ` set (AList.delete k (unused d)) \<subseteq> fst ` set (unused d)"
    by (rule AList.dom_delete_subset)
  then show "store_ok d \<Longrightarrow> ?thesis"
    unfolding store_ok_def by (simp add: keyed_delete) blast
qed

lemma store_ok_pending [simp]: "store_ok (d\<lparr>pending := q\<rparr>) = store_ok d"
  by (simp add: store_ok_def)

lemma store_ok_delta [simp]: "store_ok (d\<lparr>delta := q\<rparr>) = store_ok d"
  by (simp add: store_ok_def)

lemma store_ok_clear: "store_ok (clear d)"
  by (simp add: store_ok_def clear_def keyed_def all_in_use_def)

lemma store_ok_init: "store_ok (init a p)"
  by (simp add: store_ok_def init_def keyed_def all_in_use_def)

lemma using_unused_started:
  "store_ok (db w) \<Longrightarrow> started w (state_of (priv_add_using_unused w a g c d k))"
  by (auto simp: priv_add_using_unused_def started_def Let_def log_def protocol_send_def
        store_ok_pop split: option.splits)

lemma using_new_started:
  "store_ok (db w) \<Longrightarrow> started w (state_of (priv_add_using_new w a g c d k))"
  by (auto simp: priv_add_using_new_def started_def Let_def log_def protocol_send_def
        split: option.splits)

lemma push_marker_wf:
  assumes "started w1 w2" "active w1 = []"
  shows "wf (if pending (db w2) = []
             then w2\<lparr>db := (db w2)\<lparr>pending := pending (db w2) @ [Marker]\<rparr>\<rparr> else w2)"
  using assms by (auto simp: wf_def started_def)

lemma raise_wf:
  assumes "started w1 w2" "active w1 = []" "active w2 = active w1"
  shows "wf w2"
  using assms by (auto simp: wf_def started_def)

lemma using_unused_raise:
  "priv_add_using_unused w a g c d k = Raise e w' \<Longrightarrow> w' = w"
  by (auto simp: priv_add_using_unused_def Let_def split: option.splits if_splits)

lemma using_new_raise:
  "priv_add_using_new w a g c d k = Raise e w' \<Longrightarrow> w' = w"
  by (auto simp: priv_add_using_new_def Let_def split: option.splits if_splits)

lemma strategy_wf:
  assumes "store_ok (db w1)" "active w1 = []"
    and r: "r = priv_add_using_unused w1 a g c d k \<or> r = priv_add_using_new w1 a g c d k"
  shows "wf (state_of (case r of Raise e w2 \<Rightarrow> Raise e w2
           | Ok w2 \<Rightarrow> Ok (if pending (db w2) = []
                           then w2\<lparr>db := (db w2)\<lparr>pending := pending (db w2) @ [Marker]\<rparr>\<rparr>
                           else w2)))"
proof (cases r)
  case (Ok w2)
  have "started w1 (state_of r)"
    using r using_unused_started [OF assms(1)] using_new_started [OF assms(1)] by auto
  then have "started w1 w2" using Ok by simp
  then show ?thesis using Ok push_marker_wf [OF _ assms(2)] by simp
next
  case (Raise e w2)
  then have "w2 = w1" using r using_unused_raise using_new_raise by metis
  then show ?thesis using Raise assms by (simp add: wf_def)
qed

lemma priv_add_wf:
  assumes "store_ok (db w)" "active w = []"
  shows "wf (state_of (priv_add_on_device w a))"
proof (cases "find (db w) (a_addr a) (a_group a) (a_is_controller a)")
  case (Some e)
  then show ?thesis using assms
    by (simp add: priv_add_on_device_def wf_def call_on_done_def log_def split: option.splits)
next
  case None
  let ?w1 = "log INFO ''adding db'' w"
  have w1: "store_ok (db ?w1)" "active ?w1 = []" using assms by (simp_all add: log_def)
  show ?thesis
  proof (cases "entries (db w) = []")
    case True
    then show ?thesis using None assms
      by (simp add: priv_add_on_device_def wf_def log_def)
  next
    case False
    then have ne: "entries (db ?w1) \<noteq> []" by (simp add: log_def)
    have A: "\<And>d. wf (state_of (case priv_add_using_unused ?w1 (a_addr a) (a_group a)
                 (a_is_controller a) d (AddDone (a_on_done a)) of Raise e w2 \<Rightarrow> Raise e w2
           | Ok w2 \<Rightarrow> Ok (if pending (db w2) = []
                           then w2\<lparr>db := (db w2)\<lparr>pending := pending (db w2) @ [Marker]\<rparr>\<rparr>
                           else w2)))"
      by (rule strategy_wf [OF w1]) (rule disjI1, rule refl)
    have B: "\<And>d. wf (state_of (case priv_add_using_new ?w1 (a_addr a) (a_group a)
                 (a_is_controller a) d (AddDone (a_on_done a)) of Raise e w2 \<Rightarrow> Raise e w2
           | Ok w2 \<Rightarrow> Ok (if pending (db w2) = []
                           then w2\<lparr>db := (db w2)\<lparr>pending := pending (db w2) @ [Marker]\<rparr>\<rparr>
                           else w2)))"
      by (rule strategy_wf [OF w1]) (rule disjI2, rule refl)
    show ?thesis
      using None ne A B
      by (simp add: priv_add_on_device_def Let_def)
  qed
qed

lemma priv_delete_wf:
  assumes "store_ok (db w)" "active w = []"
  shows "wf (state_of (priv_delete_on_device w a))"
  using assms by (simp add: priv_delete_on_device_def Let_def wf_def protocol_send_def)

lemma run_pending_wf:
  assumes "store_ok (db w)" "active w = []"
  shows "wf (state_of (run_pending w p))"
  using assms priv_add_wf priv_delete_wf by (cases p) (simp_all add: wf_def)

lemma done_cb_wf:
  assumes "store_ok (db w)" "active w = []"
  shows "wf (state_of (done_cb k w ok m e))"
proof (cases "pending (db w)")
  case Nil
  then show ?thesis using assms by (simp add: done_cb_def wf_def)
next
  case (Cons p rest)
  show ?thesis
  proof (cases rest)
    case Nil
    then show ?thesis using Cons assms
      by (simp add: done_cb_def wf_def call_on_done_def Let_def split: option.splits)
  next
    case (Cons nxt later)
    have "wf (state_of (run_pending (w\<lparr>db := (db w)\<lparr>pending := rest\<rparr>\<rparr>) nxt))"
      using assms by (intro run_pending_wf) simp_all
    then show ?thesis using Cons \<open>pending (db w) = p # rest\<close>
      by (simp add: done_cb_def Let_def)
  qed
qed

lemma on_ack_wf: assumes "wf w" shows "wf (state_of (on_ack w))"
proof (cases "active w")
  case Nil
  then show ?thesis using assms by (simp add: on_ack_def)
next
  case (Cons h hs)
  then have hs: "hs = []" using assms by (simp add: wf_def)
  have ok: "store_ok (add_entry (db w) (h_entry h))"
    using assms by (simp add: wf_def store_ok_add_entry)
  show ?thesis
  proof (cases "h_next h")
    case Nil
    have "wf (state_of (done_cb (h_done h) (w\<lparr>db := add_entry (db w) (h_entry h), active := hs\<rparr>)
                 True ''Database update complete'' (Some (h_entry h))))"
      using ok hs by (intro done_cb_wf) simp_all
    then show ?thesis using Cons Nil by (simp add: on_ack_def)
  next
    case (Cons me later)
    then show ?thesis using \<open>active w = h # hs\<close> hs ok assms
      by (cases me) (simp add: on_ack_def wf_def)
  qed
qed

lemma on_nak_wf: assumes "wf w" shows "wf (state_of (on_nak w))"
proof (cases "active w")
  case Nil
  then show ?thesis using assms by (simp add: on_nak_def)
next
  case (Cons h hs)
  then have hs: "hs = []" using assms by (simp add: wf_def)
  have "wf (state_of (done_cb (h_done h) (w\<lparr>active := hs\<rparr>)
                 False ''Database command NAK'' (Some (h_entry h))))"
    using assms hs by (intro done_cb_wf) (simp_all add: wf_def)
  then show ?thesis using Cons by (simp add: on_nak_def)
qed

lemma add_on_device_wf: assumes "wf w" shows "wf (state_of (add_on_device w a))"
proof (cases "pending (db w) = []")
  case True
  then have "active w = []" using assms by (auto simp: wf_def)
  then show ?thesis using True assms priv_add_wf by (simp add: add_on_device_def wf_def)
next
  case False
  then show ?thesis using assms by (simp add: add_on_device_def wf_def log_def)
qed

lemma delete_on_device_wf: assumes "wf w" shows "wf (state_of (delete_on_device w a))"
proof (cases "pending (db w) = []")
  case True
  then have "active w = []" using assms by (auto simp: wf_def)
  then show ?thesis using True assms priv_delete_wf by (simp add: delete_on_device_def wf_def)
next
  case False
  then show ?thesis using assms by (simp add: delete_on_device_def wf_def log_def)
qed

lemma reachable_wf: "reachable w \<Longrightarrow> wf w"
proof (induction rule: reachable.induct)
  case (r_init a path)
  show ?case by (simp add: wf_def start_def store_ok_init)
next
  case (r_add_entry w e)
  then show ?case by (simp add: wf_def store_ok_add_entry)
next
  case (r_set_delta w d)
  then show ?case by (simp add: wf_def set_delta_def)
next
  case (r_assign_delta w d)
  then show ?case by (simp add: wf_def)
next
  case (r_clear w)
  then show ?case by (simp add: wf_def store_ok_clear) (simp add: clear_def)
next
  case (r_set_path w path)
  then show ?case by (simp add: wf_def set_path_def store_ok_def)
next
  case (r_add w a)
  then show ?case by (simp add: add_on_device_wf)
next
  case (r_delete w x)
  then show ?case by (simp add: delete_on_device_wf)
next
  case (r_ack w)
  then show ?case by (simp add: on_ack_wf)
next
  case (r_nak w)
  then show ?case by (simp add: on_nak_wf)
qed

subsection \<open>What a started request keeps\<close>

lemma kept_refl [simp]: "kept d d"
  by (simp add: kept_def)

lemma kept_pending [simp]: "kept d (d'\<lparr>pending := q\<rparr>) = kept d d'" "kept (d\<lparr>pending := q\<rparr>) d' = kept d d'"
  by (simp_all add: kept_def)

lemma using_unused_kept: "kept (db w) (db (state_of (priv_add_using_unused w a g c d k)))"
  by (auto simp: priv_add_using_unused_def kept_def Let_def log_def protocol_send_def
        split: option.splits)

lemma using_new_kept: "kept (db w) (db (state_of (priv_add_using_new w a g c d k)))"
  by (auto simp: priv_add_using_new_def kept_def Let_def log_def protocol_send_def
        split: option.splits)

lemma push_marker_kept:
  assumes "kept d (db (state_of r))"
  shows "kept d (db (state_of (case r of Raise e w2 \<Rightarrow> Raise e w2
           | Ok w2 \<Rightarrow> Ok (if pending (db w2) = []
                           then w2\<lparr>db := (db w2)\<lparr>pending := pending (db w2) @ [Marker]\<rparr>\<rparr>
                           else w2))))"
  using assms by (cases r) simp_all

lemma priv_add_kept: "kept (db w) (db (state_of (priv_add_on_device w a)))"
proof (cases "find (db w) (a_addr a) (a_group a) (a_is_controller a)")
  case (Some e)
  then show ?thesis
    by (simp add: priv_add_on_device_def call_on_done_def log_def split: option.splits)
next
  case None
  let ?w1 = "log INFO ''adding db'' w"
  have d: "db ?w1 = db w" by (simp add: log_def)
  have A: "\<And>d. kept (db w) (db (state_of (priv_add_using_unused ?w1 (a_addr a) (a_group a)
                 (a_is_controller a) d (AddDone (a_on_done a)))))"
    using using_unused_kept [of ?w1] by (simp add: d)
  have B: "\<And>d. kept (db w) (db (state_of (priv_add_using_new ?w1 (a_addr a) (a_group a)
                 (a_is_controller a) d (AddDone (a_on_done a)))))"
    using using_new_kept [of ?w1] by (simp add: d)
  show ?thesis
    using None push_marker_kept [OF A] push_marker_kept [OF B]
    by (simp add: priv_add_on_device_def Let_def d)
qed

lemma priv_delete_kept: "kept (db w) (db (state_of (priv_delete_on_device w a)))"
  by (simp add: priv_delete_on_device_def Let_def protocol_send_def)

lemma run_pending_kept: "kept (db w) (db (state_of (run_pending w p)))"
  using priv_add_kept priv_delete_kept by (cases p) simp_all

lemma done_cb_kept: "kept (db w) (db (state_of (done_cb k w ok m e)))"
proof (cases "pending (db w)")
  case Nil
  then show ?thesis by (simp add: done_cb_def)
next
  case (Cons p rest)
  show ?thesis
  proof (cases rest)
    case Nil
    then show ?thesis using Cons
      by (simp add: done_cb_def call_on_done_def Let_def split: option.splits)
  next
    case (Cons nxt later)
    have "kept (db (w\<lparr>db := (db w)\<lparr>pending := rest\<rparr>\<rparr>))
            (db (state_of (run_pending (w\<lparr>db := (db w)\<lparr>pending := rest\<rparr>\<rparr>) nxt)))"
      by (rule run_pending_kept)
    then show ?thesis using Cons \<open>pending (db w) = p # rest\<close>
      by (simp add: done_cb_def Let_def)
  qed
qed

lemma reachable_idle_ready: "reachable w \<Longrightarrow> pending (db w) = [] \<Longrightarrow> ready w"
  using reachable_wf [of w] by (auto simp: wf_def ready_def)


lemma kept_unused_keys:
  assumes "kept d d'" shows "fst ` set (unused d') \<subseteq> fst ` set (unused d)"
proof -
  from assms have "unused d' = unused d \<or> (\<exists>k. unused d' = AList.delete k (unused d))"
    by (simp add: kept_def)
  then show ?thesis
  proof
    assume "unused d' = unused d"
    then show ?thesis by simp
  next
    assume "\<exists>k. unused d' = AList.delete k (unused d)"
    then obtain k where "unused d' = AList.delete k (unused d)" ..
    then show ?thesis by (simp only: AList.dom_delete_subset)
  qed
qed

lemma on_ack_last:
  assumes "active w = [h]" "h_next h = []"
  shows "on_ack w = done_cb (h_done h) (w\<lparr>db := add_entry (db w) (h_entry h), active := []\<rparr>)
                      True ''Database update complete'' (Some (h_entry h))"
  using assms by (simp add: on_ack_def)

lemma on_nak_one:
  assumes "active w = [h]"
  shows "on_nak w = done_cb (h_done h) (w\<lparr>active := []\<rparr>) False ''Database command NAK''
                      (Some (h_entry h))"
  using assms by (simp add: on_nak_def)

lemma kept_unused_Nil: "kept d d' \<Longrightarrow> unused d = [] \<Longrightarrow> unused d' = []"
  by (auto simp: kept_def)

subsection \<open>What local insertion keeps\<close>

text \<open>
  Insertions keep the union of the two key sets equal to \<open>_mem_locs\<close>, and every
  member of a group list a controller entry of that group, in every reachable state.
\<close>

lemma add_entry_known_slots:
  assumes "fst ` set (entries d) \<union> fst ` set (unused d) = mem_locs d"
  shows "fst ` set (entries (add_entry d e)) \<union> fst ` set (unused (add_entry d e))
           = mem_locs (add_entry d e)"
  using assms by (auto simp: add_entry_entries add_entry_unused AList.dom_update)

lemma built_known_slots:
  assumes "fst ` set (entries d) \<union> fst ` set (unused d) = mem_locs d"
  shows "fst ` set (entries (foldl add_entry d es)) \<union> fst ` set (unused (foldl add_entry d es))
           = mem_locs (foldl add_entry d es)"
  using assms
proof (induction es arbitrary: d)
  case Nil
  then show ?case by simp
next
  case (Cons e es)
  then show ?case using add_entry_known_slots by simp
qed

lemma set_del_first_addr: "set (del_first_addr a rs) \<subseteq> set rs"
  by (induction rs) auto

lemma set_alist_update: "set (AList.update k v al) \<subseteq> insert (k, v) (set al)"
  by (induction al) auto

lemma group_members_okI:
  assumes "\<And>g rs r. (g, rs) \<in> set (groups d) \<Longrightarrow> r \<in> set rs
             \<Longrightarrow> is_controller (db_flags r) \<and> group r = g"
  shows "group_members_ok d"
  using assms unfolding group_members_ok_def list_all_iff by fast

lemma group_members_okD:
  assumes "group_members_ok d" "(g, rs) \<in> set (groups d)" "r \<in> set rs"
  shows "is_controller (db_flags r) \<and> group r = g"
  using assms unfolding group_members_ok_def list_all_iff by fast

lemma find_group_members:
  assumes "group_members_ok d" "r \<in> set (find_group d g)"
  shows "is_controller (db_flags r) \<and> group r = g"
proof (cases "map_of (groups d) g")
  case None
  then show ?thesis using assms(2) by (simp add: find_group_def)
next
  case (Some rs)
  then have "(g, rs) \<in> set (groups d)" by (rule map_of_SomeD)
  moreover have "r \<in> set rs" using assms(2) Some by (simp add: find_group_def)
  ultimately show ?thesis using group_members_okD [OF assms(1)] by blast
qed

lemma add_entry_group_members:
  assumes "group_members_ok d"
  shows "group_members_ok (add_entry d e)"
proof (rule group_members_okI)
  fix g rs r
  assume in_g: "(g, rs) \<in> set (groups (add_entry d e))" and in_rs: "r \<in> set rs"
  let ?d1 = "d\<lparr>entries := AList.update (mem_loc e) e (entries d),
                mem_locs := insert (mem_loc e) (mem_locs d)\<rparr>"
  let ?d2 = "d\<lparr>unused := AList.update (mem_loc e) e (unused d),
                mem_locs := insert (mem_loc e) (mem_locs d)\<rparr>"
  have fg1: "find_group ?d1 (group e) = find_group d (group e)"
    and fg2: "find_group ?d2 (group e) = find_group d (group e)"
    by (simp_all add: find_group_def)
  have old: "\<And>g rs r. (g, rs) \<in> set (groups d) \<Longrightarrow> r \<in> set rs
               \<Longrightarrow> is_controller (db_flags r) \<and> group r = g"
    using group_members_okD [OF assms] by blast
  have fg: "\<And>r. r \<in> set (find_group d (group e))
               \<Longrightarrow> is_controller (db_flags r) \<and> group r = group e"
    using find_group_members [OF assms] by blast
  consider (same) "(g, rs) \<in> set (groups d)"
    | (keep) "g = group e" "rs = find_group d (group e)"
    | (app) "g = group e" "rs = find_group d (group e) @ [e]" "is_controller (db_flags e)"
    | (del) "g = group e" "rs = del_first_addr (addr e) (find_group d (group e))"
    using in_g set_alist_update [of "group e" _ "groups d"]
    by (auto simp: add_entry_def Let_def fg1 fg2 split: if_splits)
  then show "is_controller (db_flags r) \<and> group r = g"
  proof cases
    case same
    then show ?thesis using old in_rs by blast
  next
    case keep
    then show ?thesis using fg in_rs by blast
  next
    case app
    then show ?thesis using fg in_rs by auto
  next
    case del
    then show ?thesis using fg in_rs set_del_first_addr by blast
  qed
qed


lemma kept_group_members: "kept d d' \<Longrightarrow> group_members_ok d \<Longrightarrow> group_members_ok d'"
  by (simp add: kept_def group_members_ok_def)

lemma add_on_device_kept: "kept (db w) (db (state_of (add_on_device w a)))"
  using priv_add_kept by (simp add: add_on_device_def log_def)

lemma delete_on_device_kept: "kept (db w) (db (state_of (delete_on_device w a)))"
  using priv_delete_kept by (simp add: delete_on_device_def log_def)

lemma on_nak_kept: "kept (db w) (db (state_of (on_nak w)))"
proof (cases "active w")
  case Nil
  then show ?thesis by (simp add: on_nak_def)
next
  case (Cons h hs)
  have "kept (db (w\<lparr>active := hs\<rparr>))
          (db (state_of (done_cb (h_done h) (w\<lparr>active := hs\<rparr>) False
                 ''Database command NAK'' (Some (h_entry h)))))"
    by (rule done_cb_kept)
  then show ?thesis using Cons by (simp add: on_nak_def)
qed

lemma on_ack_group_members:
  assumes "group_members_ok (db w)"
  shows "group_members_ok (db (state_of (on_ack w)))"
proof (cases "active w")
  case Nil
  then show ?thesis using assms by (simp add: on_ack_def)
next
  case (Cons h hs)
  have g: "group_members_ok (add_entry (db w) (h_entry h))"
    using assms by (rule add_entry_group_members)
  show ?thesis
  proof (cases "h_next h")
    case Nil
    have "kept (db (w\<lparr>db := add_entry (db w) (h_entry h), active := hs\<rparr>))
            (db (state_of (done_cb (h_done h) (w\<lparr>db := add_entry (db w) (h_entry h), active := hs\<rparr>)
                   True ''Database update complete'' (Some (h_entry h)))))"
      by (rule done_cb_kept)
    then have "group_members_ok (db (state_of (done_cb (h_done h)
                   (w\<lparr>db := add_entry (db w) (h_entry h), active := hs\<rparr>)
                   True ''Database update complete'' (Some (h_entry h)))))"
      using g kept_group_members by simp
    then show ?thesis using Nil \<open>active w = h # hs\<close> by (simp add: on_ack_def)
  next
    case (Cons me later)
    then show ?thesis using \<open>active w = h # hs\<close> g by (cases me) (simp add: on_ack_def)
  qed
qed

lemma reachable_group_members: "reachable w \<Longrightarrow> group_members_ok (db w)"
proof (induction rule: reachable.induct)
  case (r_init a path)
  show ?case by (simp add: start_def init_def group_members_ok_def)
next
  case (r_add_entry w e)
  then show ?case by (simp add: add_entry_group_members)
next
  case (r_set_delta w d)
  then show ?case by (simp add: set_delta_def group_members_ok_def)
next
  case (r_assign_delta w d)
  then show ?case by (simp add: group_members_ok_def)
next
  case (r_clear w)
  show ?case by (simp add: clear_def group_members_ok_def)
next
  case (r_set_path w path)
  then show ?case by (simp add: set_path_def group_members_ok_def)
next
  case (r_add w a)
  then show ?case using kept_group_members [OF add_on_device_kept] by blast
next
  case (r_delete w x)
  then show ?case using kept_group_members [OF delete_on_device_kept] by blast
next
  case (r_ack w)
  then show ?case by (simp add: on_ack_group_members)
next
  case (r_nak w)
  then show ?case using kept_group_members [OF on_nak_kept] by blast
qed

section \<open>Evaluating the examples\<close>

lemmas example_defs = bootstrap_def spare_def db_spare_def req2_def mk_entry_def mk_flags_def
  init_def add_entry_def find_group_def entry_eq_def start_def find_def update_from_def


lemmas run_defs = add_on_device_def priv_add_on_device_def priv_add_using_new_def
  priv_add_using_unused_def priv_delete_on_device_def delete_on_device_def on_ack_def on_nak_def
  done_cb_def call_on_done_def log_def protocol_send_def DeviceDbModify_def add_update_def
  copy_def direct_def find_mem_loc_def Let_def

lemmas bug_defs = freed_def regrouped_def old_link_def new_link_def db_relinked_def
  after_failed_reuse_def req1_def req3_def to_json_def from_json_def

lemma reachable_db_spare: "reachable (start db_spare)"
proof -
  have "reachable (start (init 9 None))" by (rule r_init)
  then have "reachable ((start (init 9 None))\<lparr>db := add_entry (db (start (init 9 None))) bootstrap\<rparr>)"
    by (rule r_add_entry)
  then have "reachable (((start (init 9 None))\<lparr>db := add_entry (db (start (init 9 None))) bootstrap\<rparr>)
     \<lparr>db := add_entry (db ((start (init 9 None))\<lparr>db := add_entry (db (start (init 9 None))) bootstrap\<rparr>)) spare\<rparr>)"
    by (rule r_add_entry)
  then show ?thesis by (simp add: start_def db_spare_def)
qed

section \<open>The reuse strategy\<close>

lemma max_key:
  assumes "al \<noteq> []"
  shows "\<exists>e. map_of al (Max (set (map fst al))) = Some e"
proof -
  have "Max (set (map fst al)) \<in> set (map fst al)"
    using assms by (intro Max_in) simp_all
  then have "Max (set (map fst al)) \<in> fst ` set al" by simp
  then have "map_of al (Max (set (map fst al))) \<noteq> None"
    by (simp only: map_of_eq_None_iff not_not)
  then show ?thesis by blast
qed

lemma using_unused_Ok:
  assumes "map_of (unused (db w)) (Max (set (map fst (unused (db w))))) = Some e"
  shows "priv_add_using_unused w a g c d k =
           Ok (w\<lparr>db := (db w)\<lparr>unused := AList.delete (Max (set (map fst (unused (db w))))) (unused (db w))\<rparr>,
                 logs := logs w @ [(INFO, ''using unused entry'')],
                 sent := sent w @ [direct (dev_addr (db w)) 0x2f 0x00 (update_from e a g c d)],
                 active := active w @ [DeviceDbModify (update_from e a g c d) k]\<rparr>)"
proof -
  have "unused (db w) \<noteq> []" using assms by auto
  then show ?thesis using assms
    by (simp add: priv_add_using_unused_def Let_def log_def protocol_send_def)
qed

lemma priv_add_reuse:
  assumes "find (db w) (a_addr a) (a_group a) (a_is_controller a) = None"
    and "entries (db w) \<noteq> []"
    and "map_of (unused (db w)) (Max (set (map fst (unused (db w))))) = Some e"
  shows "priv_add_on_device w a =
           Ok (w\<lparr>db := (db w)\<lparr>unused := AList.delete (Max (set (map fst (unused (db w))))) (unused (db w)),
                               pending := (if pending (db w) = [] then [Marker] else pending (db w))\<rparr>,
                 logs := logs w @ [(INFO, ''adding db''), (INFO, ''using unused entry'')],
                 sent := sent w @ [direct (dev_addr (db w)) 0x2f 0x00
                    (update_from e (a_addr a) (a_group a) (a_is_controller a)
                       (if a_data a = [] then [0, 0, 0] else a_data a))],
                 active := active w @ [DeviceDbModify
                    (update_from e (a_addr a) (a_group a) (a_is_controller a)
                       (if a_data a = [] then [0, 0, 0] else a_data a)) (AddDone (a_on_done a))]\<rparr>)"
proof -
  let ?w1 = "log INFO ''adding db'' w"
  have u: "unused (db w) \<noteq> []" using assms(3) by auto
  have m: "map_of (unused (db ?w1)) (Max (set (map fst (unused (db ?w1))))) = Some e"
    using assms(3) by (simp add: log_def)
  show ?thesis
    using assms(1,2) u
    by (simp add: priv_add_on_device_def Let_def using_unused_Ok [OF m]) (simp add: log_def)
qed


text \<open>
  C5, as the code has it. Whenever \<open>_add_on_device\<close> runs for a request that
  matches no entry, with at least one in-use entry and a non-empty \<open>unused\<close>: the
  unused entry with the highest slot address is taken and overwritten with the peer,
  group, role and payload of the request, in use; one write of it is sent and the
  handler has no follow-up; once acknowledged the entry is stored under that slot
  address, which was a key of \<open>unused\<close> and is one no longer, and \<open>_mem_locs\<close> is
  what it was. On an idle database \<open>add_on_device\<close> is that call, and the
  acknowledgment sends nothing more.
\<close>

theorem reuse_strategy:
  assumes "ready w"
    and "find (db w) (a_addr a) (a_group a) (a_is_controller a) = None"
    and "entries (db w) \<noteq> []" and "unused (db w) \<noteq> []"
  shows "\<exists>e entry w1.
           map_of (unused (db w)) (Max (fst ` set (unused (db w)))) = Some e
         \<and> (\<forall>k \<in> fst ` set (unused (db w)). k \<le> Max (fst ` set (unused (db w))))
         \<and> entry = update_from e (a_addr a) (a_group a) (a_is_controller a)
                      (if a_data a = [] then [0, 0, 0] else a_data a)
         \<and> mem_loc entry = Max (fst ` set (unused (db w)))
         \<and> in_use (db_flags entry)
         \<and> priv_add_on_device w a = Ok w1
         \<and> sent w1 = sent w @ [direct (dev_addr (db w)) 0x2f 0x00 entry]
         \<and> active w1 = [\<lparr>h_entry = entry, h_next = [], h_done = AddDone (a_on_done a)\<rparr>]
         \<and> map_of (entries (db (state_of (on_ack w1)))) (mem_loc entry) = Some entry
         \<and> mem_loc entry \<notin> fst ` set (unused (db (state_of (on_ack w1))))
         \<and> mem_locs (db (state_of (on_ack w1))) = mem_locs (db w)
         \<and> (pending (db w) = [] \<longrightarrow>
               add_on_device w a = Ok w1
             \<and> (\<exists>w2. on_ack w1 = Ok w2 \<and> sent w2 = sent w1 \<and> active w2 = []))"
proof -
  let ?K = "Max (fst ` set (unused (db w)))"
  have ok: "store_ok (db w)" and act: "active w = []" using assms(1) by (simp_all add: ready_def)
  have K: "Max (set (map fst (unused (db w)))) = ?K" by simp
  obtain e where e: "map_of (unused (db w)) ?K = Some e"
    using max_key [OF assms(4)] K by auto
  have loc: "mem_loc e = ?K"
    using ok e keyed_map_of by (auto simp: store_ok_def)
  have "?K \<in> fst ` set (unused (db w))"
    using e by (metis map_of_eq_None_iff option.distinct(1))
  then have inlocs: "?K \<in> mem_locs (db w)"
    using ok by (auto simp: store_ok_def)
  define entry where "entry = update_from e (a_addr a) (a_group a) (a_is_controller a)
                      (if a_data a = [] then [0, 0, 0] else a_data a)"
  have eloc: "mem_loc entry = ?K" and euse: "in_use (db_flags entry)"
    using loc by (simp_all add: update_from_def entry_def)
  have e': "map_of (unused (db w)) (Max (set (map fst (unused (db w))))) = Some e"
    using e K by simp
  define h where "h = \<lparr>h_entry = entry, h_next = [], h_done = AddDone (a_on_done a)\<rparr>"
  define w1 where "w1 = w\<lparr>db := (db w)\<lparr>unused := AList.delete ?K (unused (db w)),
                               pending := (if pending (db w) = [] then [Marker] else pending (db w))\<rparr>,
                 logs := logs w @ [(INFO, ''adding db''), (INFO, ''using unused entry'')],
                 sent := sent w @ [direct (dev_addr (db w)) 0x2f 0x00 entry],
                 active := [h]\<rparr>"
  have run: "priv_add_on_device w a = Ok w1"
    using priv_add_reuse [OF assms(2) assms(3) e', folded entry_def] act K
    by (simp add: w1_def h_def DeviceDbModify_def)
  have w1_sent: "sent w1 = sent w @ [direct (dev_addr (db w)) 0x2f 0x00 entry]"
    and w1_act: "active w1 = [h]" by (simp_all add: w1_def)
  define wa where "wa = w1\<lparr>db := add_entry (db w1) entry, active := []\<rparr>"
  have ack: "on_ack w1 = done_cb (AddDone (a_on_done a)) wa True
                           ''Database update complete'' (Some entry)"
    using on_ack_last [OF w1_act] by (simp add: h_def wa_def)
  have k: "kept (db wa) (db (state_of (on_ack w1)))"
    unfolding ack by (rule done_cb_kept)
  have wa_ent: "map_of (entries (db wa)) ?K = Some entry"
    using euse eloc by (simp add: wa_def w1_def add_entry_entries AList.update_conv')
  have wa_un: "?K \<notin> fst ` set (unused (db wa))"
    using euse by (simp add: wa_def w1_def add_entry_unused AList.delete_notin_dom)
  have wa_ml: "mem_locs (db wa) = mem_locs (db w)"
    using eloc inlocs by (simp add: wa_def w1_def insert_absorb)
  have ent: "map_of (entries (db (state_of (on_ack w1)))) (mem_loc entry) = Some entry"
    using k wa_ent eloc by (simp add: kept_def)
  have un: "mem_loc entry \<notin> fst ` set (unused (db (state_of (on_ack w1))))"
    using kept_unused_keys [OF k] wa_un eloc by auto
  have ml: "mem_locs (db (state_of (on_ack w1))) = mem_locs (db w)"
    using k wa_ml by (simp add: kept_def)
  have hi: "\<forall>k \<in> fst ` set (unused (db w)). k \<le> ?K"
    by (simp add: Max_ge)
  have idle: "pending (db w) = [] \<longrightarrow>
               add_on_device w a = Ok w1
             \<and> (\<exists>w2. on_ack w1 = Ok w2 \<and> sent w2 = sent w1 \<and> active w2 = [])"
  proof
    assume p: "pending (db w) = []"
    then have "pending (db wa) = [Marker]" by (simp add: wa_def w1_def)
    then have "\<exists>w2. on_ack w1 = Ok w2 \<and> sent w2 = sent w1 \<and> active w2 = []"
      unfolding ack
      by (simp add: done_cb_def Let_def call_on_done_def wa_def split: option.splits)
    then show "add_on_device w a = Ok w1
             \<and> (\<exists>w2. on_ack w1 = Ok w2 \<and> sent w2 = sent w1 \<and> active w2 = [])"
      using run p by (simp add: add_on_device_def)
  qed
  have act1: "active w1 = [\<lparr>h_entry = entry, h_next = [], h_done = AddDone (a_on_done a)\<rparr>]"
    using w1_act by (simp add: h_def)
  have ed: "entry = update_from e (a_addr a) (a_group a) (a_is_controller a)
                      (if a_data a = [] then [0, 0, 0] else a_data a)"
    by (rule entry_def)
  show ?thesis
    apply (rule exI [of _ e], rule exI [of _ entry], rule exI [of _ w1])
    apply (intro conjI)
    apply (rule e, rule hi, rule ed, rule eloc, rule euse, rule run, rule w1_sent, rule act1,
           rule ent, rule un, rule ml, rule idle)
    done
qed

theorem reuse_strategy_witness:
  "\<exists>w1 w2. add_on_device (start db_spare) req2 = Ok w1
     \<and> sent w1 = [direct 9 0x2f 0x00 (mk_entry 2 2 0x0FE0 (mk_flags True False False) [0, 0, 0])]
     \<and> on_ack w1 = Ok w2 \<and> sent w2 = sent w1
     \<and> map_of (entries (db w2)) 0x0FE0
          = Some (mk_entry 2 2 0x0FE0 (mk_flags True False False) [0, 0, 0])
     \<and> mem_locs (db w2) = mem_locs db_spare"
proof -
  have h1: "ready (start db_spare)"
    using reachable_db_spare by (rule reachable_idle_ready) (simp add: example_defs)
  have h2: "pending (db (start db_spare)) = []" by (simp add: example_defs)
  have h3: "find (db (start db_spare)) (a_addr req2) (a_group req2) (a_is_controller req2) = None"
    by (simp add: example_defs)
  have h4: "entries (db (start db_spare)) \<noteq> []" by (simp add: example_defs)
  have h5: "unused (db (start db_spare)) \<noteq> []" by (simp add: example_defs)
  have u: "unused (db (start db_spare)) = [(0x0FE0, spare)]" by (simp add: example_defs)
  from reuse_strategy [OF h1 h3 h4 h5]
  obtain e entry w1 where
    e: "map_of (unused (db (start db_spare))) (Max (fst ` set (unused (db (start db_spare))))) = Some e"
    and entry: "entry = update_from e (a_addr req2) (a_group req2) (a_is_controller req2)
                      (if a_data req2 = [] then [0, 0, 0] else a_data req2)"
    and loc: "mem_loc entry = Max (fst ` set (unused (db (start db_spare))))"
    and sent1: "sent w1 = sent (start db_spare) @ [direct (dev_addr (db (start db_spare))) 0x2f 0x00 entry]"
    and ent: "map_of (entries (db (state_of (on_ack w1)))) (mem_loc entry) = Some entry"
    and ml: "mem_locs (db (state_of (on_ack w1))) = mem_locs (db (start db_spare))"
    and idle: "pending (db (start db_spare)) = [] \<longrightarrow>
               add_on_device (start db_spare) req2 = Ok w1
             \<and> (\<exists>w2. on_ack w1 = Ok w2 \<and> sent w2 = sent w1 \<and> active w2 = [])"
    by (elim exE conjE)
  from idle h2 obtain w2 where add: "add_on_device (start db_spare) req2 = Ok w1"
    and ack: "on_ack w1 = Ok w2" and sent2: "sent w2 = sent w1"
    by (elim impE exE conjE)
  have "e = spare" using e by (simp add: u)
  then have entry': "entry = mk_entry 2 2 0x0FE0 (mk_flags True False False) [0, 0, 0]"
    using entry by (simp add: example_defs)
  have s1: "sent w1 = [direct 9 0x2f 0x00 entry]" using sent1 by (simp add: example_defs)
  have e2: "map_of (entries (db w2)) 0x0FE0 = Some entry" using ent ack by (simp add: entry' mk_entry_def)
  have m2: "mem_locs (db w2) = mem_locs db_spare" using ml ack by (simp add: start_def)
  show ?thesis
    apply (rule exI [of _ w1], rule exI [of _ w2])
    using add s1 ack sent2 e2 m2 unfolding entry' by (intro conjI)
qed


text \<open>
  C5 as stated fails where \<open>unused\<close> is not empty but \<open>entries\<close> is: the assertion
  of \<open>_add_on_device\<close> stops the request before the reuse strategy is chosen; no
  slot is taken and nothing is sent.
\<close>

theorem reuse_as_stated_counterexample:
  "unused (db (start db_only_spare)) = [(0x0FE0, spare)]
   \<and> entries (db (start db_only_spare)) = []
   \<and> pending (db (start db_only_spare)) = []
   \<and> find (db (start db_only_spare)) (a_addr req2) (a_group req2) (a_is_controller req2) = None
   \<and> add_on_device (start db_only_spare) req2
       = Raise AssertionError (log INFO ''adding db'' (start db_only_spare))
   \<and> sent (state_of (add_on_device (start db_only_spare) req2)) = []
   \<and> active (state_of (add_on_device (start db_only_spare) req2)) = []
   \<and> unused (db (state_of (add_on_device (start db_only_spare) req2))) = [(0x0FE0, spare)]
   \<and> entries (db (state_of (add_on_device (start db_only_spare) req2))) = []"
  by (simp add: db_only_spare_def example_defs run_defs)

section \<open>The growth strategy\<close>

lemma using_new_Ok:
  assumes "mem_locs (db w) \<noteq> {}"
    and "find_mem_loc (db w) (Min (mem_locs (db w))) = Some last_entry"
  shows "priv_add_using_new w a g c d k =
           Ok (w\<lparr>logs := logs w @ [(INFO, ''appending new record'')],
                 sent := sent w @ [direct (dev_addr (db w)) 0x2f 0x00
                           (mk_entry a g (mem_loc last_entry - 8) (mk_flags True c True) d)],
                 active := active w @
                   [\<lparr>h_entry = mk_entry a g (mem_loc last_entry - 8) (mk_flags True c True) d,
                     h_next = [(direct (dev_addr (db w)) 0x2f 0x00 (not_last last_entry),
                                not_last last_entry)],
                     h_done = k\<rparr>]\<rparr>)"
  using assms
  by (simp add: priv_add_using_new_def Let_def log_def protocol_send_def DeviceDbModify_def
        add_update_def copy_def not_last_def)

lemma priv_add_grow:
  assumes "find (db w) (a_addr a) (a_group a) (a_is_controller a) = None"
    and "unused (db w) = []"
    and "mem_locs (db w) \<noteq> {}"
    and "find_mem_loc (db w) (Min (mem_locs (db w))) = Some last_entry"
  shows "priv_add_on_device w a =
           Ok (w\<lparr>db := (db w)\<lparr>pending := (if pending (db w) = [] then [Marker] else pending (db w))\<rparr>,
                 logs := logs w @ [(INFO, ''adding db''), (INFO, ''appending new record'')],
                 sent := sent w @ [direct (dev_addr (db w)) 0x2f 0x00
                           (mk_entry (a_addr a) (a_group a) (mem_loc last_entry - 8)
                              (mk_flags True (a_is_controller a) True)
                              (if a_data a = [] then [0, 0, 0] else a_data a))],
                 active := active w @
                   [\<lparr>h_entry = mk_entry (a_addr a) (a_group a) (mem_loc last_entry - 8)
                                 (mk_flags True (a_is_controller a) True)
                                 (if a_data a = [] then [0, 0, 0] else a_data a),
                     h_next = [(direct (dev_addr (db w)) 0x2f 0x00 (not_last last_entry),
                                not_last last_entry)],
                     h_done = AddDone (a_on_done a)\<rparr>]\<rparr>)"
proof -
  let ?w1 = "log INFO ''adding db'' w"
  have ne: "entries (db w) \<noteq> []" using assms(4) by (auto simp: find_mem_loc_def)
  have a: "mem_locs (db ?w1) \<noteq> {}"
    and b: "find_mem_loc (db ?w1) (Min (mem_locs (db ?w1))) = Some last_entry"
    using assms(3,4) by (simp_all add: log_def)
  show ?thesis
    using assms(1,2) ne
    by (simp add: priv_add_on_device_def Let_def using_new_Ok [OF a b]) (simp add: log_def)
qed


lemma not_last_simps [simp]:
  "mem_loc (not_last e) = mem_loc e"
  "in_use (db_flags (not_last e)) = in_use (db_flags e)"
  "is_last_rec (db_flags (not_last e)) = False"
  by (simp_all add: not_last_def)

lemma mk_entry_simps [simp]:
  "mem_loc (mk_entry a g m f d) = m"
  "addr (mk_entry a g m f d) = a"
  "group (mk_entry a g m f d) = g"
  "data (mk_entry a g m f d) = d"
  "db_flags (mk_entry a g m f d) = f"
  "in_use (mk_flags u c l) = u"
  "is_controller (mk_flags u c l) = c"
  "is_last_rec (mk_flags u c l) = l"
  by (simp_all add: mk_entry_def mk_flags_def)

lemma reachable_db_boot: "reachable (start db_boot)"
proof -
  have "reachable (start (init 9 None))" by (rule r_init)
  then have "reachable ((start (init 9 None))\<lparr>db := add_entry (db (start (init 9 None))) bootstrap\<rparr>)"
    by (rule r_add_entry)
  then show ?thesis by (simp add: start_def db_boot_def)
qed

text \<open>
  C4, as the code has it. Whenever \<open>_add_on_device\<close> runs for a request that
  matches no entry, with \<open>unused\<close> empty and the entry of the lowest known slot
  found: the new entry is built one record (8 bytes) below that slot, in use and
  flagged last record; its write is the only one sent at first and the record store
  is kept, as it is when that write fails; the acknowledgment sends the second write,
  the former last entry with the flag cleared; after the second acknowledgment the
  new entry is at the lowest known slot and the former last entry is stored with the
  flag cleared. If no entry other than the former last one carried the flag before,
  the new entry is then the only entry flagged last record. On an idle database
  \<open>add_on_device\<close> is that call, a failure sends nothing more and neither does the
  second acknowledgment.
\<close>

theorem growth_strategy:
  assumes "ready w"
    and "find (db w) (a_addr a) (a_group a) (a_is_controller a) = None"
    and "unused (db w) = []"
    and "find_mem_loc (db w) (Min (mem_locs (db w))) = Some last_entry"
  shows "\<exists>entry w1 w2.
           entry = mk_entry (a_addr a) (a_group a) (Min (mem_locs (db w)) - 8)
                     (mk_flags True (a_is_controller a) True)
                     (if a_data a = [] then [0, 0, 0] else a_data a)
         \<and> priv_add_on_device w a = Ok w1
         \<and> sent w1 = sent w @ [direct (dev_addr (db w)) 0x2f 0x00 entry]
         \<and> kept (db w) (db w1) \<and> kept (db w) (db (state_of (on_nak w1)))
         \<and> on_ack w1 = Ok w2
         \<and> sent w2 = sent w1 @ [direct (dev_addr (db w)) 0x2f 0x00 (not_last last_entry)]
         \<and> Min (mem_locs (db (state_of (on_ack w2)))) = Min (mem_locs (db w)) - 8
         \<and> map_of (entries (db (state_of (on_ack w2)))) (Min (mem_locs (db w)) - 8) = Some entry
         \<and> map_of (entries (db (state_of (on_ack w2)))) (Min (mem_locs (db w)))
               = Some (not_last last_entry)
         \<and> ((\<forall>k e. map_of (entries (db w)) k = Some e \<and> is_last_rec (db_flags e)
                  \<longrightarrow> k = Min (mem_locs (db w)))
              \<longrightarrow> (\<forall>k e. map_of (entries (db (state_of (on_ack w2)))) k = Some e
                    \<longrightarrow> (is_last_rec (db_flags e) \<longleftrightarrow> k = Min (mem_locs (db w)) - 8)))
         \<and> unused (db (state_of (on_ack w2))) = []
         \<and> (pending (db w) = [] \<longrightarrow>
               add_on_device w a = Ok w1
             \<and> sent (state_of (on_nak w1)) = sent w1
             \<and> (\<exists>w3. on_ack w2 = Ok w3 \<and> sent w3 = sent w2 \<and> active w3 = []))"
proof -
  let ?K = "Min (mem_locs (db w))"
  have ok: "store_ok (db w)" and act: "active w = []" using assms(1) by (simp_all add: ready_def)
  have last: "map_of (entries (db w)) ?K = Some last_entry"
    using assms(4) by (simp add: find_mem_loc_def)
  have loc: "mem_loc last_entry = ?K"
    using ok last keyed_map_of by (auto simp: store_ok_def)
  have use: "in_use (db_flags last_entry)"
    using ok last all_in_use_map_of by (auto simp: store_ok_def)
  have "?K \<in> fst ` set (entries (db w))"
    using last by (metis map_of_eq_None_iff option.distinct(1))
  then have Kin: "?K \<in> mem_locs (db w)" using ok by (auto simp: store_ok_def)
  then have ne: "mem_locs (db w) \<noteq> {}" by auto
  have fin: "finite (mem_locs (db w))" using ok by (simp add: store_ok_def)
  define entry where "entry = mk_entry (a_addr a) (a_group a) (?K - 8)
                     (mk_flags True (a_is_controller a) True)
                     (if a_data a = [] then [0, 0, 0] else a_data a)"
  define old where "old = not_last last_entry"
  have eflags: "in_use (db_flags entry)" "is_last_rec (db_flags entry)" "mem_loc entry = ?K - 8"
    by (simp_all add: entry_def)
  have oflags: "in_use (db_flags old)" "\<not> is_last_rec (db_flags old)" "mem_loc old = ?K"
    using use loc by (simp_all add: old_def)
  define h where "h = \<lparr>h_entry = entry,
                     h_next = [(direct (dev_addr (db w)) 0x2f 0x00 old, old)],
                     h_done = AddDone (a_on_done a)\<rparr>"
  define w1 where "w1 = w\<lparr>db := (db w)\<lparr>pending := (if pending (db w) = [] then [Marker]
                                                     else pending (db w))\<rparr>,
                 logs := logs w @ [(INFO, ''adding db''), (INFO, ''appending new record'')],
                 sent := sent w @ [direct (dev_addr (db w)) 0x2f 0x00 entry],
                 active := [h]\<rparr>"
  have run: "priv_add_on_device w a = Ok w1"
    using priv_add_grow [OF assms(2) assms(3) ne assms(4)] act loc
    by (simp add: w1_def h_def entry_def old_def)
  have w1_sent: "sent w1 = sent w @ [direct (dev_addr (db w)) 0x2f 0x00 entry]"
    and w1_act: "active w1 = [h]"
    and w1_db: "db w1 = (db w)\<lparr>pending := (if pending (db w) = [] then [Marker]
                                                     else pending (db w))\<rparr>"
    by (simp_all add: w1_def)
  have k1: "kept (db w) (db w1)" by (simp add: w1_db)
  have nak: "on_nak w1 = done_cb (AddDone (a_on_done a)) (w1\<lparr>active := []\<rparr>) False
                           ''Database command NAK'' (Some entry)"
    using on_nak_one [OF w1_act] by (simp add: h_def)
  have "kept (db (w1\<lparr>active := []\<rparr>)) (db (state_of (on_nak w1)))"
    unfolding nak by (rule done_cb_kept)
  then have kn: "kept (db w) (db (state_of (on_nak w1)))" by (simp add: w1_db)
  define w2 where "w2 = w1\<lparr>db := add_entry (db w1) entry,
                          sent := sent w1 @ [direct (dev_addr (db w)) 0x2f 0x00 old],
                          active := [h\<lparr>h_entry := old, h_next := []\<rparr>]\<rparr>"
  have ack1: "on_ack w1 = Ok w2"
    by (simp add: on_ack_def w1_act w2_def h_def)
  have w2_sent: "sent w2 = sent w1 @ [direct (dev_addr (db w)) 0x2f 0x00 (not_last last_entry)]"
    by (simp add: w2_def old_def)
  have w2_act: "active w2 = [h\<lparr>h_entry := old, h_next := []\<rparr>]" by (simp add: w2_def)
  define wa where "wa = w2\<lparr>db := add_entry (db w2) old, active := []\<rparr>"
  have ack2: "on_ack w2 = done_cb (AddDone (a_on_done a)) wa True
                            ''Database update complete'' (Some old)"
    using on_ack_last [OF w2_act] by (simp add: h_def wa_def)
  have k: "kept (db wa) (db (state_of (on_ack w2)))"
    unfolding ack2 by (rule done_cb_kept)
  have dba: "db wa = add_entry (add_entry (db w1) entry) old"
    by (simp add: wa_def w2_def)
  have enta: "map_of (entries (db wa)) = (map_of (entries (db w)))(?K - 8 \<mapsto> entry, ?K \<mapsto> old)"
    unfolding dba using eflags oflags
    by (simp add: add_entry_entries AList.update_conv' w1_db)
  have una: "unused (db wa) = []"
    unfolding dba using eflags oflags assms(3) by (simp add: add_entry_unused w1_db)
  have mla: "mem_locs (db wa) = insert (?K - 8) (mem_locs (db w))"
    unfolding dba using eflags oflags Kin by (simp add: insert_absorb insert_commute w1_db)
  have ent3: "map_of (entries (db (state_of (on_ack w2))))
                = (map_of (entries (db w)))(?K - 8 \<mapsto> entry, ?K \<mapsto> old)"
    using k enta by (simp add: kept_def)
  have un3: "unused (db (state_of (on_ack w2))) = []"
    using kept_unused_Nil [OF k una] .
  have ml3: "mem_locs (db (state_of (on_ack w2))) = insert (?K - 8) (mem_locs (db w))"
    using k mla by (simp add: kept_def)
  have min3: "Min (mem_locs (db (state_of (on_ack w2)))) = ?K - 8"
    unfolding ml3 using Min_insert [OF fin ne, of "?K - 8"] by (simp only: min_def) simp
  have new3: "map_of (entries (db (state_of (on_ack w2)))) (?K - 8) = Some entry"
    unfolding ent3 by simp
  have old3: "map_of (entries (db (state_of (on_ack w2)))) ?K = Some (not_last last_entry)"
    unfolding ent3 by (simp add: old_def)
  have one3: "(\<forall>k e. map_of (entries (db w)) k = Some e \<and> is_last_rec (db_flags e)
                  \<longrightarrow> k = ?K)
              \<longrightarrow> (\<forall>k e. map_of (entries (db (state_of (on_ack w2)))) k = Some e
                    \<longrightarrow> (is_last_rec (db_flags e) \<longleftrightarrow> k = ?K - 8))"
  proof
    assume stale: "\<forall>k e. map_of (entries (db w)) k = Some e \<and> is_last_rec (db_flags e)
                  \<longrightarrow> k = ?K"
    show "\<forall>k e. map_of (entries (db (state_of (on_ack w2)))) k = Some e
                    \<longrightarrow> (is_last_rec (db_flags e) \<longleftrightarrow> k = ?K - 8)"
      unfolding ent3 using eflags oflags stale by (auto split: if_splits)
  qed
  have idle: "pending (db w) = [] \<longrightarrow>
               add_on_device w a = Ok w1
             \<and> sent (state_of (on_nak w1)) = sent w1
             \<and> (\<exists>w3. on_ack w2 = Ok w3 \<and> sent w3 = sent w2 \<and> active w3 = [])"
  proof
    assume p: "pending (db w) = []"
    then have pa: "pending (db wa) = [Marker]" "pending (db w1) = [Marker]"
      by (simp_all add: dba w1_db)
    have a: "add_on_device w a = Ok w1" using run p by (simp add: add_on_device_def)
    have n: "sent (state_of (on_nak w1)) = sent w1"
      unfolding nak using pa(2)
      by (simp add: done_cb_def Let_def call_on_done_def split: option.splits)
    have c: "\<exists>w3. on_ack w2 = Ok w3 \<and> sent w3 = sent w2 \<and> active w3 = []"
      unfolding ack2 using pa(1)
      by (simp add: done_cb_def Let_def call_on_done_def wa_def split: option.splits)
    from a n c show "add_on_device w a = Ok w1
             \<and> sent (state_of (on_nak w1)) = sent w1
             \<and> (\<exists>w3. on_ack w2 = Ok w3 \<and> sent w3 = sent w2 \<and> active w3 = [])"
      by (intro conjI)
  qed
  have ed: "entry = mk_entry (a_addr a) (a_group a) (?K - 8)
                     (mk_flags True (a_is_controller a) True)
                     (if a_data a = [] then [0, 0, 0] else a_data a)"
    by (rule entry_def)
  show ?thesis
    apply (rule exI [of _ entry], rule exI [of _ w1], rule exI [of _ w2])
    apply (intro conjI)
    apply (rule ed, rule run, rule w1_sent, rule k1, rule kn, rule ack1, rule w2_sent,
           rule min3, rule new3, rule old3, rule one3, rule un3, rule idle)
    done
qed


theorem growth_strategy_witness:
  "\<exists>w1 w2 w3. add_on_device (start db_boot) req2 = Ok w1
     \<and> sent w1 = [direct 9 0x2f 0x00 (mk_entry 2 2 0x0FF0 (mk_flags True False True) [0, 0, 0])]
     \<and> on_ack w1 = Ok w2
     \<and> sent w2 = sent w1 @ [direct 9 0x2f 0x00 (not_last bootstrap)]
     \<and> on_ack w2 = Ok w3 \<and> sent w3 = sent w2
     \<and> Min (mem_locs (db w3)) = 0x0FF0
     \<and> map_of (entries (db w3)) 0x0FF0
          = Some (mk_entry 2 2 0x0FF0 (mk_flags True False True) [0, 0, 0])
     \<and> map_of (entries (db w3)) 0x0FF8 = Some (not_last bootstrap)
     \<and> \<not> is_last_rec (db_flags (not_last bootstrap))"
proof -
  have h2: "pending (db (start db_boot)) = []" by (simp add: example_defs db_boot_def)
  have h1: "ready (start db_boot)"
    using reachable_db_boot h2 by (rule reachable_idle_ready)
  have h3: "find (db (start db_boot)) (a_addr req2) (a_group req2) (a_is_controller req2) = None"
    by (simp add: example_defs db_boot_def)
  have h4: "unused (db (start db_boot)) = []" by (simp add: example_defs db_boot_def)
  have ml: "mem_locs (db (start db_boot)) = {0x0FF8}" by (simp add: example_defs db_boot_def)
  have h5: "find_mem_loc (db (start db_boot)) (Min (mem_locs (db (start db_boot)))) = Some bootstrap"
    unfolding ml by (simp add: example_defs db_boot_def find_mem_loc_def)
  have h6: "\<forall>k e. map_of (entries (db (start db_boot))) k = Some e \<and> is_last_rec (db_flags e)
                 \<longrightarrow> k = Min (mem_locs (db (start db_boot)))"
    unfolding ml by (simp add: example_defs db_boot_def)
  from growth_strategy [OF h1 h3 h4 h5]
  obtain entry w1 w2 where
    entry: "entry = mk_entry (a_addr req2) (a_group req2) (Min (mem_locs (db (start db_boot))) - 8)
                     (mk_flags True (a_is_controller req2) True)
                     (if a_data req2 = [] then [0, 0, 0] else a_data req2)"
    and sent1: "sent w1 = sent (start db_boot) @ [direct (dev_addr (db (start db_boot))) 0x2f 0x00 entry]"
    and ack1: "on_ack w1 = Ok w2"
    and sent2: "sent w2 = sent w1 @ [direct (dev_addr (db (start db_boot))) 0x2f 0x00 (not_last bootstrap)]"
    and min3: "Min (mem_locs (db (state_of (on_ack w2)))) = Min (mem_locs (db (start db_boot))) - 8"
    and new3: "map_of (entries (db (state_of (on_ack w2)))) (Min (mem_locs (db (start db_boot))) - 8) = Some entry"
    and old3: "map_of (entries (db (state_of (on_ack w2)))) (Min (mem_locs (db (start db_boot))))
               = Some (not_last bootstrap)"
    and one3: "(\<forall>k e. map_of (entries (db (start db_boot))) k = Some e \<and> is_last_rec (db_flags e)
                  \<longrightarrow> k = Min (mem_locs (db (start db_boot))))
              \<longrightarrow> (\<forall>k e. map_of (entries (db (state_of (on_ack w2)))) k = Some e
                    \<longrightarrow> (is_last_rec (db_flags e)
                         \<longleftrightarrow> k = Min (mem_locs (db (start db_boot))) - 8))"
    and idle: "pending (db (start db_boot)) = [] \<longrightarrow>
               add_on_device (start db_boot) req2 = Ok w1
             \<and> sent (state_of (on_nak w1)) = sent w1
             \<and> (\<exists>w3. on_ack w2 = Ok w3 \<and> sent w3 = sent w2 \<and> active w3 = [])"
    by (elim exE conjE)
  from idle h2 obtain w3 where add: "add_on_device (start db_boot) req2 = Ok w1"
    and ack2: "on_ack w2 = Ok w3" and sent3: "sent w3 = sent w2"
    by (elim impE exE conjE)
  have entry': "entry = mk_entry 2 2 0x0FF0 (mk_flags True False True) [0, 0, 0]"
    using entry unfolding ml by (simp add: req2_def)
  have s1: "sent w1 = [direct 9 0x2f 0x00 (mk_entry 2 2 0x0FF0 (mk_flags True False True) [0, 0, 0])]"
    using sent1 by (simp add: entry' start_def db_boot_def init_def)
  have s2: "sent w2 = sent w1 @ [direct 9 0x2f 0x00 (not_last bootstrap)]"
    using sent2 by (simp add: start_def db_boot_def init_def)
  have m3: "Min (mem_locs (db w3)) = 0x0FF0" using min3 ack2 unfolding ml by simp
  have n3: "map_of (entries (db w3)) 0x0FF0
          = Some (mk_entry 2 2 0x0FF0 (mk_flags True False True) [0, 0, 0])"
    using new3 ack2 unfolding ml by (simp add: entry')
  have o3: "map_of (entries (db w3)) 0x0FF8 = Some (not_last bootstrap)"
    using old3 ack2 unfolding ml by simp
  have "\<forall>k e. map_of (entries (db (state_of (on_ack w2)))) k = Some e
                    \<longrightarrow> (is_last_rec (db_flags e)
                         \<longleftrightarrow> k = Min (mem_locs (db (start db_boot))) - 8)"
    using one3 h6 by (rule mp)
  then have u3: "\<forall>k e. map_of (entries (db w3)) k = Some e
            \<longrightarrow> (is_last_rec (db_flags e) \<longleftrightarrow> k = 0x0FF0)"
    using ack2 unfolding ml by simp
  have "is_last_rec (db_flags (not_last bootstrap)) = (0x0FF8 = (0x0FF0 :: int))"
    using u3 o3 by blast
  then have f3: "\<not> is_last_rec (db_flags (not_last bootstrap))" by simp
  show ?thesis
    apply (rule exI [of _ w1], rule exI [of _ w2], rule exI [of _ w3])
    using add s1 ack1 s2 ack2 sent3 m3 n3 o3 f3 by (intro conjI)
qed

text \<open>
  C4 as stated fails in two ways. Where an entry above the lowest slot carries a
  stale last-record flag, as after a growth whose second write was not acknowledged,
  the code clears the flag of the entry at the lowest slot only, and two entries are
  flagged after the commit. Where the lowest known slot has no entry in
  \<open>entries\<close>, as after a reuse whose write failed, the request runs with \<open>unused\<close>
  empty and creates no entry and sends no write.
\<close>

theorem growth_as_stated_counterexample:
  "unused (db (start db_two_last)) = []
   \<and> find (db (start db_two_last)) (a_addr req2) (a_group req2) (a_is_controller req2) = None
   \<and> map_of (entries (db (committed (start db_two_last) req2))) 0x0FE8
       = Some (mk_entry 2 2 0x0FE8 (mk_flags True False True) [0, 0, 0])
   \<and> map_of (entries (db (committed (start db_two_last) req2))) 0x0FF8 = Some bootstrap
   \<and> is_last_rec (db_flags bootstrap)
   \<and> is_last_rec (db_flags (mk_entry 2 2 0x0FE8 (mk_flags True False True) [0, 0, 0]))
   \<and> unused (db after_failed_reuse) = []
   \<and> pending (db after_failed_reuse) = []
   \<and> entries (db after_failed_reuse) = [(0x0FF8, bootstrap)]
   \<and> find (db after_failed_reuse) (a_addr req3) (a_group req3) (a_is_controller req3) = None
   \<and> Min (mem_locs (db after_failed_reuse)) = 0x0FE0
   \<and> find_mem_loc (db after_failed_reuse) 0x0FE0 = None
   \<and> sent (state_of (add_on_device after_failed_reuse req3)) = sent after_failed_reuse
   \<and> active (state_of (add_on_device after_failed_reuse req3)) = []
   \<and> entries (db (state_of (add_on_device after_failed_reuse req3))) = [(0x0FF8, bootstrap)]"
  by (simp add: committed_def db_two_last_def second_last_def example_defs bug_defs run_defs)

section \<open>Requests that do not reach the device\<close>

lemma find_Some_D:
  assumes "find d a g c = Some e"
  shows "e \<in> snd ` set (entries d) \<and> addr e = a \<and> group e = g \<and> is_controller (db_flags e) = c"
proof -
  from assms obtain i where "i < length (map snd (entries d))" "map snd (entries d) ! i = e"
    "addr e = a \<and> group e = g \<and> is_controller (db_flags e) = c"
    unfolding find_def find_Some_iff by blast
  then show ?thesis by (metis nth_mem set_map)
qed

text \<open>
  C8, as the code has it. When \<open>_add_on_device\<close> runs for a peer, group and role
  that an entry of \<open>entries\<close> already has, it returns at once: nothing is sent, no
  handler is registered, the record store is what it was, and \<open>on_done\<close>, if given,
  is called with \<open>True\<close>, the message and that entry. On an idle database
  \<open>add_on_device\<close> is that call and the database is unchanged altogether. On a busy
  database \<open>add_on_device\<close> appends the request to the queue instead: no callback
  is called then.
\<close>

theorem add_existing_is_noop:
  assumes "find (db w) (a_addr a) (a_group a) (a_is_controller a) = Some e"
  shows "(\<exists>w'. priv_add_on_device w a = Ok w'
            \<and> entries (db w') = entries (db w) \<and> unused (db w') = unused (db w)
            \<and> groups (db w') = groups (db w) \<and> mem_locs (db w') = mem_locs (db w)
            \<and> sent w' = sent w \<and> active w' = active w
            \<and> calls w' = calls w @ (case a_on_done a of None \<Rightarrow> []
                                      | Some cb \<Rightarrow> [(cb, True, ''Entry already exists'', Some e)])
            \<and> (pending (db w) = [] \<longrightarrow> add_on_device w a = Ok w' \<and> db w' = db w))
         \<and> e \<in> snd ` set (entries (db w))
         \<and> addr e = a_addr a \<and> group e = a_group a
         \<and> is_controller (db_flags e) = a_is_controller a
         \<and> (pending (db w) \<noteq> [] \<longrightarrow>
              (\<exists>w'. add_on_device w a = Ok w'
                  \<and> pending (db w') = pending (db w) @ [AddCall a]
                  \<and> calls w' = calls w \<and> sent w' = sent w \<and> active w' = active w
                  \<and> entries (db w') = entries (db w) \<and> unused (db w') = unused (db w)
                  \<and> groups (db w') = groups (db w) \<and> mem_locs (db w') = mem_locs (db w)))"
proof -
  have run: "\<exists>w'. priv_add_on_device w a = Ok w'
            \<and> entries (db w') = entries (db w) \<and> unused (db w') = unused (db w)
            \<and> groups (db w') = groups (db w) \<and> mem_locs (db w') = mem_locs (db w)
            \<and> sent w' = sent w \<and> active w' = active w
            \<and> calls w' = calls w @ (case a_on_done a of None \<Rightarrow> []
                                      | Some cb \<Rightarrow> [(cb, True, ''Entry already exists'', Some e)])
            \<and> (pending (db w) = [] \<longrightarrow> add_on_device w a = Ok w' \<and> db w' = db w)"
    using assms
    by (simp add: priv_add_on_device_def add_on_device_def call_on_done_def log_def
          split: option.splits)
  have found: "e \<in> snd ` set (entries (db w)) \<and> addr e = a_addr a \<and> group e = a_group a
         \<and> is_controller (db_flags e) = a_is_controller a"
    using find_Some_D [OF assms] .
  have busy: "pending (db w) \<noteq> [] \<longrightarrow>
              (\<exists>w'. add_on_device w a = Ok w'
                  \<and> pending (db w') = pending (db w) @ [AddCall a]
                  \<and> calls w' = calls w \<and> sent w' = sent w \<and> active w' = active w
                  \<and> entries (db w') = entries (db w) \<and> unused (db w') = unused (db w)
                  \<and> groups (db w') = groups (db w) \<and> mem_locs (db w') = mem_locs (db w))"
    by (simp add: add_on_device_def log_def)
  from run found busy show ?thesis by (intro conjI) (elim conjE, assumption)+
qed

theorem add_existing_is_noop_witness:
  "(\<exists>w'. add_on_device (start db_boot) req1 = Ok w'
      \<and> db w' = db_boot \<and> sent w' = []
      \<and> calls w' = [(5, True, ''Entry already exists'', Some bootstrap)])
   \<and> (\<exists>w'. add_on_device busy_boot req1 = Ok w'
      \<and> pending (db w') = [Marker, AddCall req1] \<and> calls w' = [])"
proof -
  have f: "find (db (start db_boot)) (a_addr req1) (a_group req1) (a_is_controller req1)
             = Some bootstrap"
    by (simp add: example_defs db_boot_def req1_def)
  have p: "pending (db (start db_boot)) = []" by (simp add: example_defs db_boot_def)
  from add_existing_is_noop [OF f]
  obtain w' where run: "calls w' = calls (start db_boot) @ (case a_on_done req1 of None \<Rightarrow> []
                                      | Some cb \<Rightarrow> [(cb, True, ''Entry already exists'', Some bootstrap)])"
    "sent w' = sent (start db_boot)"
    "pending (db (start db_boot)) = [] \<longrightarrow> add_on_device (start db_boot) req1 = Ok w'
        \<and> db w' = db (start db_boot)"
    by (elim exE conjE)
  from run(3) p have idle: "add_on_device (start db_boot) req1 = Ok w'" "db w' = db (start db_boot)"
    by simp_all
  have one: "\<exists>w'. add_on_device (start db_boot) req1 = Ok w'
      \<and> db w' = db_boot \<and> sent w' = []
      \<and> calls w' = [(5, True, ''Entry already exists'', Some bootstrap)]"
    using idle run(1,2) by (intro exI [of _ w']) (simp add: start_def req1_def)
  have fb: "find (db busy_boot) (a_addr req1) (a_group req1) (a_is_controller req1)
             = Some bootstrap"
    by (simp add: busy_boot_def example_defs db_boot_def req1_def run_defs)
  have pb: "pending (db busy_boot) = [Marker]" "calls busy_boot = []"
    by (simp_all add: busy_boot_def example_defs db_boot_def run_defs)
  from add_existing_is_noop [OF fb]
  have "pending (db busy_boot) \<noteq> [] \<longrightarrow>
              (\<exists>w'. add_on_device busy_boot req1 = Ok w'
                  \<and> pending (db w') = pending (db busy_boot) @ [AddCall req1]
                  \<and> calls w' = calls busy_boot \<and> sent w' = sent busy_boot
                  \<and> active w' = active busy_boot
                  \<and> entries (db w') = entries (db busy_boot)
                  \<and> unused (db w') = unused (db busy_boot)
                  \<and> groups (db w') = groups (db busy_boot)
                  \<and> mem_locs (db w') = mem_locs (db busy_boot))"
    by (elim conjE)
  then obtain w'' where "add_on_device busy_boot req1 = Ok w''"
    "pending (db w'') = pending (db busy_boot) @ [AddCall req1]" "calls w'' = calls busy_boot"
    using pb(1) by (elim impE exE conjE) simp_all
  then have two: "\<exists>w'. add_on_device busy_boot req1 = Ok w'
      \<and> pending (db w') = [Marker, AddCall req1] \<and> calls w' = []"
    using pb by (intro exI [of _ w'']) simp
  from one two show ?thesis by (rule conjI)
qed

text \<open>
  C8 as stated fails on a busy database: the request matches the bootstrap record,
  yet \<open>add_on_device\<close> calls no callback and the queue grows by the request.
\<close>

theorem add_existing_busy_counterexample:
  "find (db busy_boot) (a_addr req1) (a_group req1) (a_is_controller req1) = Some bootstrap
   \<and> pending (db busy_boot) = [Marker]
   \<and> calls busy_boot = []
   \<and> add_on_device busy_boot req1 = Ok (state_of (add_on_device busy_boot req1))
   \<and> calls (state_of (add_on_device busy_boot req1)) = []
   \<and> pending (db (state_of (add_on_device busy_boot req1))) = [Marker, AddCall req1]"
  by (simp add: busy_boot_def db_boot_def example_defs bug_defs run_defs)

text \<open>
  C10, as the code has it. When \<open>entries\<close> is empty no request matches, and
  \<open>_add_on_device\<close> raises \<open>AssertionError\<close> before it looks at \<open>unused\<close>: nothing
  is sent and the database is untouched, whether or not free slots exist. On an idle
  database \<open>add_on_device\<close> is that call. On a busy database \<open>add_on_device\<close>
  appends the request to the queue and returns.
\<close>

theorem add_needs_an_entry:
  assumes "entries (db w) = []"
  shows "find (db w) (a_addr a) (a_group a) (a_is_controller a) = None
         \<and> (\<exists>w'. priv_add_on_device w a = Raise AssertionError w'
                \<and> db w' = db w \<and> sent w' = sent w \<and> active w' = active w
                \<and> calls w' = calls w)
         \<and> (pending (db w) = [] \<longrightarrow> add_on_device w a = priv_add_on_device w a)
         \<and> (pending (db w) \<noteq> [] \<longrightarrow>
              (\<exists>w'. add_on_device w a = Ok w'
                  \<and> pending (db w') = pending (db w) @ [AddCall a]
                  \<and> calls w' = calls w \<and> sent w' = sent w \<and> active w' = active w
                  \<and> entries (db w') = entries (db w) \<and> unused (db w') = unused (db w)
                  \<and> groups (db w') = groups (db w) \<and> mem_locs (db w') = mem_locs (db w)))"
  using assms
  by (simp add: find_def priv_add_on_device_def add_on_device_def log_def)

theorem add_needs_an_entry_witness:
  "unused (db (start db_only_spare)) \<noteq> []
   \<and> (\<exists>w'. add_on_device (start db_only_spare) req2 = Raise AssertionError w'
          \<and> db w' = db_only_spare \<and> sent w' = [])
   \<and> (\<exists>w'. add_on_device busy_cleared req3 = Ok w'
          \<and> pending (db w') = [Marker, AddCall req3])"
proof -
  have e: "entries (db (start db_only_spare)) = []" by (simp add: example_defs db_only_spare_def)
  have p: "pending (db (start db_only_spare)) = []" by (simp add: example_defs db_only_spare_def)
  have u: "unused (db (start db_only_spare)) \<noteq> []" by (simp add: example_defs db_only_spare_def)
  from add_needs_an_entry [OF e, of req2] p
  have one: "\<exists>w'. add_on_device (start db_only_spare) req2 = Raise AssertionError w'
          \<and> db w' = db_only_spare \<and> sent w' = []"
    by (auto simp: start_def)
  have eb: "entries (db busy_cleared) = []" by (simp add: busy_cleared_def clear_def)
  have pb: "pending (db busy_cleared) = [Marker]"
    by (simp add: busy_cleared_def clear_def busy_boot_def db_boot_def example_defs run_defs)
  from add_needs_an_entry [OF eb, of req3]
  have "pending (db busy_cleared) \<noteq> [] \<longrightarrow>
              (\<exists>w'. add_on_device busy_cleared req3 = Ok w'
                  \<and> pending (db w') = pending (db busy_cleared) @ [AddCall req3]
                  \<and> calls w' = calls busy_cleared \<and> sent w' = sent busy_cleared
                  \<and> active w' = active busy_cleared
                  \<and> entries (db w') = entries (db busy_cleared)
                  \<and> unused (db w') = unused (db busy_cleared)
                  \<and> groups (db w') = groups (db busy_cleared)
                  \<and> mem_locs (db w') = mem_locs (db busy_cleared))"
    by (elim conjE)
  then obtain w'' where "add_on_device busy_cleared req3 = Ok w''"
    "pending (db w'') = pending (db busy_cleared) @ [AddCall req3]"
    using pb by (elim impE exE conjE) simp_all
  then have two: "\<exists>w'. add_on_device busy_cleared req3 = Ok w'
          \<and> pending (db w') = [Marker, AddCall req3]"
    using pb by (intro exI [of _ w'']) simp
  from u one two show ?thesis by (intro conjI)
qed

text \<open>
  C10 as stated fails on a busy database: with a request in flight and the store
  cleared, \<open>entries\<close> is empty and nothing matches, yet \<open>add_on_device\<close> returns
  normally and only queues the request.
\<close>

theorem add_needs_an_entry_busy_counterexample:
  "entries (db busy_cleared) = []
   \<and> find (db busy_cleared) (a_addr req3) (a_group req3) (a_is_controller req3) = None
   \<and> pending (db busy_cleared) = [Marker]
   \<and> add_on_device busy_cleared req3 = Ok (state_of (add_on_device busy_cleared req3))
   \<and> pending (db (state_of (add_on_device busy_cleared req3))) = [Marker, AddCall req3]
   \<and> sent (state_of (add_on_device busy_cleared req3)) = sent busy_cleared"
  by (simp add: busy_cleared_def clear_def busy_boot_def db_boot_def example_defs bug_defs
        run_defs)

section \<open>The pending queue\<close>
















section \<open>Where the code leaves the record store inconsistent\<close>

text \<open>
  C1. The reuse path takes the entry out of \<open>unused\<close> when the request starts,
  before any reply: with one free slot at \<open>0x0FE0\<close>, \<open>unused\<close> is empty while the
  write is still waiting for its reply, and stays empty when the write fails; the
  slot is then in neither dictionary although \<open>_mem_locs\<close> still holds it.
\<close>

theorem reuse_pops_before_ack:
  "unused (db (start db_spare)) = [(0x0FE0, spare)]
   \<and> unused (db (state_of (add_on_device (start db_spare) req2))) = []
   \<and> length (active (state_of (add_on_device (start db_spare) req2))) = 1
   \<and> unused (db (state_of (on_nak (state_of (add_on_device (start db_spare) req2))))) = []
   \<and> entries (db (state_of (on_nak (state_of (add_on_device (start db_spare) req2)))))
       = [(0x0FF8, bootstrap)]
   \<and> 0x0FE0 \<in> mem_locs (db (state_of (on_nak (state_of (add_on_device (start db_spare) req2)))))
   \<and> calls (state_of (on_nak (state_of (add_on_device (start db_spare) req2))))
       = [(7, False, ''Database command NAK'',
           Some (mk_entry 2 2 0x0FE0 (mk_flags True False False) [0, 0, 0]))]"
  by (simp add: example_defs run_defs)

text \<open>
  C2. \<open>add_entry\<close> of a record in use and then of the same slot marked not in use
  leaves the slot a key of both \<open>entries\<close> and \<open>unused\<close>: the first entry is never
  taken out of \<open>entries\<close>.
\<close>

theorem same_slot_in_both_maps:
  "map_of (entries (add_entry (add_entry (init 9 None) bootstrap) freed)) 0x0FF8 = Some bootstrap
   \<and> map_of (unused (add_entry (add_entry (init 9 None) bootstrap) freed)) 0x0FF8 = Some freed
   \<and> 0x0FF8 \<in> fst ` set (entries (add_entry (add_entry (init 9 None) bootstrap) freed))
                \<inter> fst ` set (unused (add_entry (add_entry (init 9 None) bootstrap) freed))
   \<and> mem_locs (add_entry (add_entry (init 9 None) bootstrap) freed) = {0x0FF8}"
  by (simp add: example_defs bug_defs)

text \<open>
  C3. \<open>add_entry\<close> of a controller link of group 1 and then of the same slot as a
  controller link of group 2 leaves the first entry in the list of group 1 although
  \<open>entries\<close> no longer holds it.
\<close>

theorem stale_group_member:
  "find_group (add_entry (add_entry (init 9 None) bootstrap) regrouped) 1 = [bootstrap]
   \<and> entries (add_entry (add_entry (init 9 None) bootstrap) regrouped) = [(0x0FF8, regrouped)]
   \<and> bootstrap \<notin> snd ` set (entries (add_entry (add_entry (init 9 None) bootstrap) regrouped))"
  by (simp add: example_defs bug_defs)

text \<open>
  C7. With a deleted link to peer 1 in group 1 at \<open>0x0FF8\<close> and the same link in use
  at \<open>0x0FF0\<close>, group 1 lists the link in use; \<open>from_json (to_json db)\<close> inserts
  the entries in use first and the unused ones after, and the unused one erases the
  link in use from group 1. The two dictionaries are reproduced, the group index is
  not.
\<close>

theorem round_trip_loses_group:
  "find_group db_relinked 1 = [new_link]
   \<and> find_group (from_json (to_json db_relinked) None) 1 = []
   \<and> entries (from_json (to_json db_relinked) None) = entries db_relinked
   \<and> unused (from_json (to_json db_relinked) None) = unused db_relinked
   \<and> entries db_relinked = [(0x0FF0, new_link)]
   \<and> unused db_relinked = [(0x0FF8, old_link)]"
  by (simp add: example_defs bug_defs)

text \<open>
  C9. After a reuse whose write failed, the lowest known slot is in neither
  dictionary and the growth strategy finds no last entry. The request returns
  without raising, logs the error, sends nothing and calls no callback, but the dummy
  entry is pushed on the empty queue; the next request is then queued behind it and
  nothing is sent for it.
\<close>

theorem abort_marks_busy:
  "add_on_device after_failed_reuse req3 = Ok (state_of (add_on_device after_failed_reuse req3))
   \<and> pending (db after_failed_reuse) = []
   \<and> unused (db after_failed_reuse) = []
   \<and> find_mem_loc (db after_failed_reuse) (Min (mem_locs (db after_failed_reuse))) = None
   \<and> pending (db (state_of (add_on_device after_failed_reuse req3))) = [Marker]
   \<and> sent (state_of (add_on_device after_failed_reuse req3)) = sent after_failed_reuse
   \<and> active (state_of (add_on_device after_failed_reuse req3)) = []
   \<and> calls (state_of (add_on_device after_failed_reuse req3)) = calls after_failed_reuse
   \<and> last (logs (state_of (add_on_device after_failed_reuse req3))) = (ERROR, ''MEM_LOCS error'')
   \<and> pending (db (state_of (add_on_device (state_of (add_on_device after_failed_reuse req3)) req1)))
       = [Marker, AddCall req1]
   \<and> sent (state_of (add_on_device (state_of (add_on_device after_failed_reuse req3)) req1))
       = sent after_failed_reuse"
  by (simp add: example_defs bug_defs run_defs)

end
